theory Spec2Isabelle
  imports Complex_Main
begin

section \<open>JavaScript values that cross the debugging channel\<close>

text \<open>
  A frame is the value \<open>JSON.parse\<close> returns for an inbound text message. Numbers are
  doubles: the finite ones are kept by their rational value, \<open>JInfinity\<close> is what a
  literal such as \<open>1e999\<close> parses to (the flag is the sign). An object lists its own
  properties, each key once.
\<close>

datatype json =
    JNull
  | JBool bool
  | JNum rat
  | JInfinity bool
  | JStr string
  | JArr "json list"
  | JObj "(string \<times> json) list"

text \<open>The result of \<open>JSON.parse(message)\<close>: a value, or the SyntaxError it raises.\<close>

datatype parsed = ParseError | Parsed json

datatype exn =
    SyntaxError
  | TypeError
  | UnhandledError "json option"
  | ListenerRaised nat

text \<open>
  \<open>j.k\<close> on a value that is not \<open>null\<close>, for a key that no built-in prototype defines
  (\<open>code\<close>, \<open>message\<close>, \<open>exceptionDetails\<close>, \<open>result\<close>, \<open>value\<close>, \<open>text\<close>): the own property
  of an object, \<open>undefined\<close> (\<open>None\<close>) otherwise.
\<close>

fun js_prop :: "json \<Rightarrow> string \<Rightarrow> json option" where
  "js_prop (JObj fs) k = map_of fs k"
| "js_prop j k = None"

text \<open>
  The same read on a value that may be \<open>undefined\<close> (\<open>None\<close>) or \<open>null\<close>: reading a property
  of either raises a TypeError, the outer \<open>None\<close> of the result.
\<close>

fun js_get :: "json option \<Rightarrow> string \<Rightarrow> json option option" where
  "js_get None k = None"
| "js_get (Some JNull) k = None"
| "js_get (Some j) k = Some (js_prop j k)"

text \<open>JavaScript truthiness (\<open>if (v)\<close>); \<open>None\<close> is \<open>undefined\<close>.\<close>

fun truthy :: "json option \<Rightarrow> bool" where
  "truthy None = False"
| "truthy (Some JNull) = False"
| "truthy (Some (JBool b)) = b"
| "truthy (Some (JNum r)) = (r \<noteq> 0)"
| "truthy (Some (JInfinity b)) = True"
| "truthy (Some (JStr s)) = (s \<noteq> [])"
| "truthy (Some (JArr xs)) = True"
| "truthy (Some (JObj fs)) = True"

section \<open>Promises\<close>

text \<open>
  What a promise was rejected with: a value taken from a frame, a TypeError raised inside
  a promise callback, or the timeout message of \<open>waitFor\<close> (\<open>'Timeout of ' + timeout +
  'ms exceeded'\<close>, kept by its number).
\<close>

datatype reason = RJson json | RTypeError | RTimeout rat

datatype outcome = Pending | Fulfilled "json option" | Rejected reason

text \<open>
  Calling \<open>resolve\<close> or \<open>reject\<close> of the promise at index \<open>h\<close>. A promise settles once:
  later calls change nothing.
\<close>

definition settle :: "outcome list \<Rightarrow> nat \<Rightarrow> outcome \<Rightarrow> outcome list" where
  "settle ps h out = (if h < length ps \<and> ps ! h = Pending then ps[h := out] else ps)"

section \<open>The Page object\<close>

text \<open>
  A listener held by the page's EventEmitter. A durable listener is a function of the
  caller: the model knows it by a label and by whether it raises on a given argument;
  what it does besides is outside the model. A \<open>Once\<close> listener is the wrapper that
  \<open>wait\<close> installs, which resolves the promise at that index of \<open>waits\<close>.
\<close>

datatype listener = Durable nat "json option \<Rightarrow> bool" | Once nat

datatype logline = ConsoleError "json option" "json option" | ConsoleWarn json

text \<open>
  The fields of \<open>Page\<close>. \<open>socketOpen\<close> is \<open>this._socket.readyState === 1\<close>; \<open>awaiting\<close>
  holds the \<open>send\<close> calls suspended in \<open>_waitForConnection\<close>, in call order; \<open>sent\<close> is
  what was written to the socket. \<open>requests\<close> and \<open>waits\<close> are the promises created by
  \<open>send\<close> and by \<open>wait\<close>: a promise is known by its index. \<open>calls\<close> records the
  invocations of durable listeners, \<open>console\<close> the lines written by the receive path.
  The socket's closing and its \<open>error\<close> event, which touch none of these fields, are left
  out.
\<close>

record page =
  pageId :: string
  server :: string
  socketOpen :: bool
  awaiting :: "(nat \<times> string \<times> json) list"
  packetCounter :: nat
  packetCallbacks :: "nat \<rightharpoonup> nat"
  eventEmitter :: "(string \<times> listener) list"
  requests :: "outcome list"
  waits :: "outcome list"
  sent :: "json list"
  calls :: "(nat \<times> json option) list"
  console :: "logline list"

subsection \<open>send\<close>

text \<open>
  \<open>this._packetCounter++\<close> on a double that starts at 0: exact below \<open>2^53\<close>, and without
  effect from there on (\<open>2^53 + 1\<close> rounds back to \<open>2^53\<close>).
\<close>

definition js_incr :: "nat \<Rightarrow> nat" where
  "js_incr n = (if n < 2 ^ 53 then n + 1 else n)"

definition request_frame :: "nat \<Rightarrow> string \<Rightarrow> json \<Rightarrow> json" where
  "request_frame i method params =
     JObj [(''id'', JNum (of_nat i)), (''method'', JStr method), (''params'', params)]"

text \<open>The part of \<open>send\<close> after \<open>await this._waitForConnection()\<close>, for the promise \<open>h\<close>.\<close>

definition send_body :: "page \<Rightarrow> nat \<Rightarrow> string \<Rightarrow> json \<Rightarrow> page" where
  "send_body s h method params =
     (let c = js_incr (packetCounter s) in
      s\<lparr>packetCounter := c,
        packetCallbacks := (packetCallbacks s)(c \<mapsto> h),
        sent := sent s @ [request_frame c method params]\<rparr>)"

text \<open>
  \<open>send(method, params = {})\<close> creates its promise and waits for the connection. On an
  open socket the body runs before any other frame can be received; otherwise the call
  stays suspended until the socket's \<open>open\<close> event. The promise's index is returned.
\<close>

definition send :: "page \<Rightarrow> string \<Rightarrow> json option \<Rightarrow> nat \<times> page" where
  "send s method params =
     (let h = length (requests s);
          p = (case params of None \<Rightarrow> JObj [] | Some v \<Rightarrow> v);
          s1 = s\<lparr>requests := requests s @ [Pending]\<rparr>
      in (h, if socketOpen s then send_body s1 h method p
             else s1\<lparr>awaiting := awaiting s1 @ [(h, method, p)]\<rparr>))"

text \<open>The socket's \<open>open\<close> event: the suspended calls resume in the order they were made.\<close>

definition socket_open :: "page \<Rightarrow> page" where
  "socket_open s =
     foldl (\<lambda>t (h, method, p). send_body t h method p)
       (s\<lparr>socketOpen := True, awaiting := []\<rparr>) (awaiting s)"

subsection \<open>listen, wait and the emitter\<close>

text \<open>
  \<open>listen\<close> and \<open>wait\<close> append a listener to those registered under the event's name. Node's
  emitter, before it appends, also emits \<open>newListener\<close>, and after a \<open>once\<close> wrapper has
  removed itself \<open>removeListener\<close>, to the listeners registered under these two names.
  \<open>Page\<close> and \<open>Browser\<close> register none, and the announcements are left out here: the
  definitions below are those of an emitter on which no caller of \<open>listen\<close> has
  registered one either (\<open>plain_registry\<close> below says so of a state).
\<close>

definition listen :: "page \<Rightarrow> string \<Rightarrow> listener \<Rightarrow> page" where
  "listen s method l = s\<lparr>eventEmitter := eventEmitter s @ [(method, l)]\<rparr>"

definition wait :: "page \<Rightarrow> string \<Rightarrow> nat \<times> page" where
  "wait s method =
     (let w = length (waits s) in
      (w, s\<lparr>waits := waits s @ [Pending],
            eventEmitter := eventEmitter s @ [(method, Once w)]\<rparr>))"

definition listeners_of :: "page \<Rightarrow> string \<Rightarrow> listener list" where
  "listeners_of s name = map snd (filter (\<lambda>e. fst e = name) (eventEmitter s))"

fun is_once :: "nat \<Rightarrow> listener \<Rightarrow> bool" where
  "is_once w (Once v) = (v = w)"
| "is_once w (Durable l r) = False"

definition removeListener :: "(string \<times> listener) list \<Rightarrow> string \<Rightarrow> nat \<Rightarrow> (string \<times> listener) list" where
  "removeListener es name w = filter (\<lambda>e. \<not> (fst e = name \<and> is_once w (snd e))) es"

text \<open>
  The loop of \<open>emit\<close> over the listeners registered for \<open>name\<close> when it started. A durable
  listener is called; if it raises, the exception leaves \<open>emit\<close> and the remaining
  listeners are not called. A \<open>once\<close> wrapper removes itself and resolves its promise.
\<close>

fun dispatch :: "page \<Rightarrow> string \<Rightarrow> listener list \<Rightarrow> json option \<Rightarrow> exn option \<times> page" where
  "dispatch s name [] p = (None, s)"
| "dispatch s name (Durable l r # ls) p =
     (let s1 = s\<lparr>calls := calls s @ [(l, p)]\<rparr> in
      if r p then (Some (ListenerRaised l), s1) else dispatch s1 name ls p)"
| "dispatch s name (Once w # ls) p =
     dispatch (s\<lparr>eventEmitter := removeListener (eventEmitter s) name w,
                 waits := settle (waits s) w (Fulfilled p)\<rparr>) name ls p"

text \<open>
  \<open>emit(type, p)\<close>, where \<open>name\<close> is the property key of \<open>type\<close> and \<open>is_error\<close> says
  whether \<open>type === 'error'\<close>: an \<open>error\<close> event without a listener is thrown.
\<close>

definition emit :: "page \<Rightarrow> bool \<Rightarrow> string \<Rightarrow> json option \<Rightarrow> exn option \<times> page" where
  "emit s is_error name p =
     (if is_error \<and> listeners_of s ''error'' = [] then (Some (UnhandledError p), s)
      else dispatch s name (listeners_of s name) p)"

subsection \<open>The receive path\<close>

text \<open>
  The key of \<open>_packetCallbacks\<close> that a frame's \<open>id\<close> is the same value as. The keys are
  the numbers \<open>send\<close> stored, so only a number that is a natural can be one.
\<close>

fun callback_key :: "json \<Rightarrow> nat option" where
  "callback_key (JNum r) = (if 0 \<le> r \<and> of_int \<lfloor>r\<rfloor> = r then Some (nat \<lfloor>r\<rfloor>) else None)"
| "callback_key j = None"

text \<open>\<open>'id' in json && this._packetCallbacks.has(json.id)\<close> on an object, with the key and the entry found.\<close>

definition pending_callback :: "page \<Rightarrow> (string \<times> json) list \<Rightarrow> (nat \<times> nat) option" where
  "pending_callback s fs =
     (case map_of fs ''id'' of
        None \<Rightarrow> None
      | Some v \<Rightarrow>
          (case callback_key v of
             None \<Rightarrow> None
           | Some i \<Rightarrow> (case packetCallbacks s i of None \<Rightarrow> None | Some h \<Rightarrow> Some (i, h))))"

text \<open>
  The event name \<open>emit\<close> files a frame's \<open>method\<close> under. For a value that is not a
  string this is JavaScript's conversion to a property key, a built-in that \<open>conv\<close>
  stands for (\<open>None\<close> where it raises a TypeError).
\<close>

fun event_key :: "(json \<Rightarrow> string option) \<Rightarrow> json \<Rightarrow> (bool \<times> string) option" where
  "event_key conv (JStr m) = Some (m = ''error'', m)"
| "event_key conv j = (case conv j of None \<Rightarrow> None | Some k \<Rightarrow> Some (False, k))"

text \<open>
  \<open>_onMessage(message)\<close>, on the outcome of \<open>JSON.parse(message)\<close>. The \<open>in\<close> operator
  raises a TypeError on a primitive (\<open>null\<close>, a boolean, a number, a string); on an array
  \<open>'id' in json\<close> and \<open>'method' in json\<close> are false; on an object they test its own
  properties. \<open>json.error.code\<close> raises a TypeError when \<open>json.error\<close> is \<open>null\<close>, before
  anything is written or settled. The exception that leaves the function is returned
  with the state reached.
\<close>

definition onMessage :: "(json \<Rightarrow> string option) \<Rightarrow> page \<Rightarrow> parsed \<Rightarrow> exn option \<times> page" where
  "onMessage conv s message =
     (case message of
        ParseError \<Rightarrow> (Some SyntaxError, s)
      | Parsed j \<Rightarrow>
          (case j of
             JObj fs \<Rightarrow>
               (case pending_callback s fs of
                  Some (i, h) \<Rightarrow>
                    (case map_of fs ''error'' of
                       Some e \<Rightarrow>
                         (if e = JNull then (Some TypeError, s)
                          else
                            (None, s\<lparr>console := console s @ [ConsoleError (js_prop e ''code'') (js_prop e ''message'')],
                                     requests := settle (requests s) h (Rejected (RJson e)),
                                     packetCallbacks := (packetCallbacks s)(i := None)\<rparr>))
                     | None \<Rightarrow>
                         (None, s\<lparr>requests := settle (requests s) h (Fulfilled (map_of fs ''result'')),
                                  packetCallbacks := (packetCallbacks s)(i := None)\<rparr>))
                | None \<Rightarrow>
                    (case map_of fs ''method'' of
                       Some m \<Rightarrow>
                         (case event_key conv m of
                            None \<Rightarrow> (Some TypeError, s)
                          | Some (is_error, name) \<Rightarrow> emit s is_error name (map_of fs ''params''))
                     | None \<Rightarrow> (None, s\<lparr>console := console s @ [ConsoleWarn j]\<rparr>)))
           | JArr xs \<Rightarrow> (None, s\<lparr>console := console s @ [ConsoleWarn j]\<rparr>)
           | _ \<Rightarrow> (Some TypeError, s)))"

subsection \<open>exec, execSync and waitFor\<close>

definition evaluate_params :: "string \<Rightarrow> bool \<Rightarrow> json" where
  "evaluate_params script promise =
     JObj [(''expression'', JStr script), (''userGesture'', JBool True),
           (''returnByValue'', JBool True), (''awaitPromise'', JBool promise)]"

text \<open>
  \<open>exec(script, options)\<close> sends the evaluate request; \<open>promise\<close> is
  \<open>options.promise === true\<close>. The promise it returns is the one of \<open>send\<close> followed by
  the \<open>then\<close> callback below.
\<close>

definition exec :: "page \<Rightarrow> string \<Rightarrow> bool \<Rightarrow> nat \<times> page" where
  "exec s script promise = send s ''Runtime.evaluate'' (Some (evaluate_params script promise))"

text \<open>
  \<open>.then(result => new Promise((resolve, reject) => { if (result.exceptionDetails) return
  reject(result.exceptionDetails); resolve(result); }))\<close> as a function of the outcome of
  the promise it is chained to. Reading \<open>exceptionDetails\<close> of \<open>undefined\<close> or \<open>null\<close>
  raises inside the executor, which rejects the promise.
\<close>

fun exec_then :: "outcome \<Rightarrow> outcome" where
  "exec_then Pending = Pending"
| "exec_then (Rejected e) = Rejected e"
| "exec_then (Fulfilled result) =
     (case js_get result ''exceptionDetails'' of
        None \<Rightarrow> Rejected RTypeError
      | Some None \<Rightarrow> Fulfilled result
      | Some (Some d) \<Rightarrow> if truthy (Some d) then Rejected (RJson d) else Fulfilled result)"

text \<open>\<open>.then(data => data.result.value)\<close> of \<open>execSync\<close> and \<open>execPromise\<close>.\<close>

fun value_then :: "outcome \<Rightarrow> outcome" where
  "value_then Pending = Pending"
| "value_then (Rejected e) = Rejected e"
| "value_then (Fulfilled data) =
     (case js_get data ''result'' of
        None \<Rightarrow> Rejected RTypeError
      | Some r \<Rightarrow> (case js_get r ''value'' of None \<Rightarrow> Rejected RTypeError | Some v \<Rightarrow> Fulfilled v))"






definition result_frame :: "nat \<Rightarrow> json \<Rightarrow> parsed" where
  "result_frame i r = Parsed (JObj [(''id'', JNum (of_nat i)), (''result'', r)])"

definition error_frame :: "nat \<Rightarrow> json \<Rightarrow> parsed" where
  "error_frame i e = Parsed (JObj [(''id'', JNum (of_nat i)), (''error'', e)])"





subsection \<open>navigate\<close>

text \<open>
  \<open>navigate\<close> reads \<open>this._page\<close>. No statement of \<open>Page\<close> or of \<open>Browser\<close> assigns a
  property of that name, so the read gives \<open>undefined\<close> and \<open>this._page.send\<close> raises a
  TypeError before anything is sent; the function is \<open>async\<close>, so the promise it returns
  is rejected with it. The result is that promise's outcome and the page.
\<close>

definition navigate :: "page \<Rightarrow> string \<Rightarrow> bool \<Rightarrow> outcome \<times> page" where
  "navigate s url waitForLoad = (Rejected RTypeError, s)"

subsection \<open>The constructor\<close>

record descriptor =
  devtoolsFrontendUrl :: string
  targetId :: string
  title :: string
  targetType :: string
  url :: string
  webSocketDebuggerUrl :: string

text \<open>
  The listener the constructor installs, \<open>({message}) => message.text.split('\\r\\n')
  .forEach(...)\<close>, raises unless its argument has a \<open>message\<close> whose \<open>text\<close> is a string.
\<close>

definition console_listener_raises :: "json option \<Rightarrow> bool" where
  "console_listener_raises p =
     (case js_get p ''message'' of
        None \<Rightarrow> True
      | Some m \<Rightarrow>
          (case js_get m ''text'' of
             Some (Some (JStr t)) \<Rightarrow> False
           | _ \<Rightarrow> True))"

text \<open>
  \<open>new Page(pageObject, browser)\<close>: the socket is still connecting, so the two \<open>send\<close>
  calls of the constructor are suspended.
\<close>

definition new_page :: "descriptor \<Rightarrow> page" where
  "new_page d =
     (let s0 = \<lparr>pageId = targetId d, server = webSocketDebuggerUrl d, socketOpen = False,
                awaiting = [], packetCounter = 0, packetCallbacks = Map.empty,
                eventEmitter = [], requests = [], waits = [], sent = [], calls = [],
                console = []\<rparr>;
          s1 = snd (send s0 ''Console.enable'' None);
          s2 = snd (send s1 ''Page.enable'' None)
      in listen s2 ''Console.messageAdded'' (Durable 0 console_listener_raises))"

section \<open>The Browser object\<close>

text \<open>
  \<open>_sockets\<close> maps a target id to a \<open>Page\<close> object. Objects are known by reference: the
  index of the object in \<open>heap\<close>, which holds every \<open>Page\<close> constructed so far.
\<close>

record browser =
  sockets :: "string \<rightharpoonup> nat"
  heap :: "page list"
  defaultPage :: "nat option"
  initialized :: bool

definition new_browser :: browser where
  "new_browser = \<lparr>sockets = Map.empty, heap = [], defaultPage = None, initialized = False\<rparr>"

definition get :: "browser \<Rightarrow> descriptor \<Rightarrow> nat \<times> browser" where
  "get b target =
     (case sockets b (targetId target) of
        Some page \<Rightarrow> (page, b\<lparr>sockets := (sockets b)(targetId target \<mapsto> page)\<rparr>)
      | None \<Rightarrow>
          (let page = length (heap b) in
           (page, b\<lparr>heap := heap b @ [new_page target],
                    sockets := (sockets b)(targetId target \<mapsto> page)\<rparr>)))"

text \<open>\<open>pages.find(page => page.url === 'about:blank#default-page') || pages[0]\<close>\<close>

definition default_target :: "descriptor list \<Rightarrow> descriptor option" where
  "default_target pages =
     (case find (\<lambda>page. url page = ''about:blank#default-page'') pages of
        Some d \<Rightarrow> Some d
      | None \<Rightarrow> (case pages of [] \<Rightarrow> None | d # ds \<Rightarrow> Some d))"

text \<open>
  \<open>_initialize\<close> from the point where \<open>list()\<close> has given \<open>pages\<close>. With an empty list
  \<open>get(undefined)\<close> raises a TypeError on \<open>target.id\<close>. The \<open>send\<close> is made on the page
  object the cache returned.
\<close>

definition initialize :: "browser \<Rightarrow> descriptor list \<Rightarrow> exn option \<times> browser" where
  "initialize b pages =
     (case default_target pages of
        None \<Rightarrow> (Some TypeError, b)
      | Some d \<Rightarrow>
          (let (page, b1) = get b d;
               b2 = b1\<lparr>defaultPage := Some page\<rparr>;
               discover = Some (JObj [(''discover'', JBool True)])
           in (None, b2\<lparr>heap := (heap b2)[page := snd (send (heap b2 ! page) ''Target.setDiscoverTargets'' discover)]\<rparr>)))"

section \<open>Notions used to state the properties\<close>

subsection \<open>Listeners\<close>

text \<open>
  Node's emitter also announces the registration and the removal of a listener to the
  listeners of its own events \<open>newListener\<close> and \<open>removeListener\<close>. The embedding of
  \<open>listen\<close>, \<open>wait\<close> and \<open>emit\<close> above leaves these announcements out, so what is proved
  of the listeners called is stated for a registry that holds no listener under these two
  names.
\<close>

definition plain_registry :: "page \<Rightarrow> bool" where
  "plain_registry s =
     list_all (\<lambda>e. fst e \<noteq> ''newListener'' \<and> fst e \<noteq> ''removeListener'') (eventEmitter s)"

text \<open>The labels of the durable listeners that \<open>emit\<close> calls, in order: it stops at one that raises.\<close>

fun invoked :: "listener list \<Rightarrow> json option \<Rightarrow> nat list" where
  "invoked [] p = []"
| "invoked (Durable l r # ls) p = l # (if r p then [] else invoked ls p)"
| "invoked (Once w # ls) p = invoked ls p"

fun durable_labels :: "listener list \<Rightarrow> nat list" where
  "durable_labels [] = []"
| "durable_labels (Durable l r # ls) = l # durable_labels ls"
| "durable_labels (Once w # ls) = durable_labels ls"

fun is_waiter :: "listener \<Rightarrow> bool" where
  "is_waiter (Once w) = True"
| "is_waiter (Durable l r) = False"

definition none_raises :: "listener list \<Rightarrow> json option \<Rightarrow> bool" where
  "none_raises ls p = (\<forall>l r. Durable l r \<in> set ls \<longrightarrow> \<not> r p)"

subsection \<open>What happens to a page\<close>

text \<open>
  The events in the life of a page after its construction: a \<open>send\<close>, \<open>listen\<close> or \<open>wait\<close>
  call, the socket's \<open>open\<close> event, an inbound message. An exception that leaves
  \<open>_onMessage\<close> is dropped here: the page stays in the state the handler reached.
\<close>

datatype action =
    ASend string "json option"
  | AListen string listener
  | AWait string
  | AOpen
  | AFrame parsed

fun step :: "(json \<Rightarrow> string option) \<Rightarrow> page \<Rightarrow> action \<Rightarrow> page" where
  "step conv s (ASend method params) = snd (send s method params)"
| "step conv s (AListen method l) = listen s method l"
| "step conv s (AWait method) = snd (wait s method)"
| "step conv s AOpen = socket_open s"
| "step conv s (AFrame message) = snd (onMessage conv s message)"

definition run :: "(json \<Rightarrow> string option) \<Rightarrow> page \<Rightarrow> action list \<Rightarrow> page" where
  "run conv s acts = foldl (step conv) s acts"

text \<open>
  The inbound frames that settle the request \<open>i\<close>: objects whose \<open>id\<close> is the number \<open>i\<close> and
  whose \<open>error\<close>, if present, is not \<open>null\<close>. \<open>response_outcome\<close> is what such a frame says.
\<close>

fun answers :: "nat \<Rightarrow> action \<Rightarrow> bool" where
  "answers i (AFrame (Parsed (JObj fs))) =
     (case map_of fs ''id'' of
        None \<Rightarrow> False
      | Some v \<Rightarrow> callback_key v = Some i \<and> map_of fs ''error'' \<noteq> Some JNull)"
| "answers i a = False"

definition response_outcome :: "(string \<times> json) list \<Rightarrow> outcome" where
  "response_outcome fs =
     (case map_of fs ''error'' of
        Some e \<Rightarrow> Rejected (RJson e)
      | None \<Rightarrow> Fulfilled (map_of fs ''result''))"

text \<open>
  What holds of \<open>_packetCallbacks\<close> in every state of a page: an entry is filed under an id
  the counter has reached, its promise is pending, and no promise is filed twice; the
  suspended calls hold pending promises that are not filed yet.
\<close>

definition callbacks_inv :: "page \<Rightarrow> bool" where
  "callbacks_inv s =
     ((\<forall>i h. packetCallbacks s i = Some h \<longrightarrow>
          i \<le> packetCounter s \<and> h < length (requests s) \<and> requests s ! h = Pending) \<and>
      (\<forall>i j h. packetCallbacks s i = Some h \<and> packetCallbacks s j = Some h \<longrightarrow> i = j))"

definition queue_ok :: "page \<Rightarrow> (nat \<times> string \<times> json) list \<Rightarrow> bool" where
  "queue_ok s q =
     (distinct (map fst q) \<and>
      (\<forall>h \<in> fst ` set q. h < length (requests s) \<and> requests s ! h = Pending \<and>
                           (\<forall>i. packetCallbacks s i \<noteq> Some h)))"

definition page_inv :: "page \<Rightarrow> bool" where
  "page_inv s = (callbacks_inv s \<and> queue_ok s (awaiting s))"

definition resume :: "page \<Rightarrow> (nat \<times> string \<times> json) list \<Rightarrow> page" where
  "resume t q = foldl (\<lambda>t (h, method, p). send_body t h method p) t q"

text \<open>
  The call \<open>send(method, params)\<close> made in the state \<open>s\<close>. On an open socket its request is
  written at once. Otherwise the call is suspended behind the calls already waiting;
  other things happen meanwhile (\<open>mid\<close>, in which the socket does not open), and the
  socket's \<open>open\<close> event runs the bodies of the suspended calls in order. \<open>written\<close> is the
  state in which the body of the call has just run, \<open>allocated\<close> the value of the counter
  there, which is the id in its request, and \<open>issued\<close> the state after the call, or after
  the \<open>open\<close> event, is over.
\<close>

fun opens :: "action \<Rightarrow> bool" where
  "opens AOpen = True"
| "opens a = False"

definition written :: "(json \<Rightarrow> string option) \<Rightarrow> page \<Rightarrow> string \<Rightarrow> json option \<Rightarrow> action list \<Rightarrow> page" where
  "written conv s method params mid =
     (if socketOpen s then snd (send s method params)
      else
        (let t = run conv (snd (send s method params)) mid
         in resume (t\<lparr>socketOpen := True, awaiting := []\<rparr>)
              (take (length (awaiting s) + 1) (awaiting t))))"

definition allocated :: "(json \<Rightarrow> string option) \<Rightarrow> page \<Rightarrow> string \<Rightarrow> json option \<Rightarrow> action list \<Rightarrow> nat" where
  "allocated conv s method params mid = packetCounter (written conv s method params mid)"

definition issued :: "(json \<Rightarrow> string option) \<Rightarrow> page \<Rightarrow> string \<Rightarrow> json option \<Rightarrow> action list \<Rightarrow> page" where
  "issued conv s method params mid =
     (if socketOpen s then snd (send s method params)
      else socket_open (run conv (snd (send s method params)) mid))"

subsection \<open>Replies to an evaluation\<close>




subsection \<open>The cache of pages\<close>

text \<open>
  The cache is well formed: every reference it holds is a \<open>Page\<close> of the heap, constructed
  for the id it is filed under. This holds of \<open>new_browser\<close> and is kept by \<open>get\<close> and by
  \<open>initialize\<close>, the only functions that write \<open>_sockets\<close>.
\<close>

definition cache_ok :: "browser \<Rightarrow> bool" where
  "cache_ok b =
     (\<forall>i page. sockets b i = Some page \<longrightarrow> page < length (heap b) \<and> pageId (heap b ! page) = i)"

text \<open>A sequence of \<open>get\<close> calls.\<close>

definition gets :: "browser \<Rightarrow> descriptor list \<Rightarrow> browser" where
  "gets b ds = foldl (\<lambda>b d. snd (get b d)) b ds"

section \<open>Example data\<close>

definition example_target :: descriptor where
  "example_target =
     \<lparr>devtoolsFrontendUrl = [], targetId = ''A'', title = [], targetType = ''page'',
      url = ''about:blank#default-page'', webSocketDebuggerUrl = ''ws://x''\<rparr>"

definition target_B :: descriptor where
  "target_B =
     \<lparr>devtoolsFrontendUrl = [], targetId = ''B'', title = [], targetType = ''page'',
      url = ''http://foo'', webSocketDebuggerUrl = ''ws://y''\<rparr>"

definition target_C :: descriptor where
  "target_C =
     \<lparr>devtoolsFrontendUrl = [], targetId = ''C'', title = [], targetType = ''page'',
      url = ''http://bar'', webSocketDebuggerUrl = ''ws://z''\<rparr>"

text \<open>A page whose socket has opened: the constructor's two requests are out, with ids 1 and 2.\<close>

definition example_page :: page where
  "example_page = socket_open (new_page example_target)"

text \<open>
  The examples carry string method names only, so the conversion of other values to a
  property key is never consulted by them.
\<close>

definition no_conversion :: "json \<Rightarrow> string option" where
  "no_conversion j = None"

definition unknown_id_frame :: "(string \<times> json) list" where
  "unknown_id_frame =
     [(''id'', JNum 7), (''error'', JObj [(''code'', JNum (- 1)), (''message'', JStr ''bad'')])]"

definition unrecognized_frame :: "(string \<times> json) list" where
  "unrecognized_frame = [(''foo'', JNum 1)]"

definition console_params :: json where
  "console_params = JObj [(''message'', JObj [(''source'', JStr ''javascript''), (''text'', JStr ''hi'')])]"

definition response_with_method :: "(string \<times> json) list" where
  "response_with_method =
     [(''id'', JNum 1), (''method'', JStr ''Console.messageAdded''), (''params'', console_params),
      (''result'', JObj [])]"

definition event_with_stale_id :: "(string \<times> json) list" where
  "event_with_stale_id =
     [(''id'', JNum 7), (''method'', JStr ''Console.messageAdded''), (''params'', console_params)]"

definition load_event :: "(string \<times> json) list" where
  "load_event =
     [(''method'', JStr ''Page.loadEventFired''), (''params'', JObj [(''timestamp'', JNum 1)])]"

definition two_waiters :: page where
  "two_waiters =
     snd (wait (snd (wait example_page ''Page.loadEventFired'')) ''Page.loadEventFired'')"

text \<open>
  A second listener for the console event, one that never raises, registered after the
  constructor's; and a console event without \<open>params\<close>.
\<close>

definition never_raises :: "json option \<Rightarrow> bool" where
  "never_raises p = False"

definition two_listeners :: page where
  "two_listeners = listen example_page ''Console.messageAdded'' (Durable 1 never_raises)"

definition bare_console_event :: "(string \<times> json) list" where
  "bare_console_event = [(''method'', JStr ''Console.messageAdded'')]"

text \<open>Results of \<open>Runtime.evaluate\<close>: the value 3, an exception, the value \<open>false\<close>.\<close>

definition number_result :: json where
  "number_result = JObj [(''result'', JObj [(''type'', JStr ''number''), (''value'', JNum 3)])]"

definition exception_result :: json where
  "exception_result =
     JObj [(''result'', JObj [(''type'', JStr ''object'')]),
           (''exceptionDetails'', JObj [(''text'', JStr ''Uncaught'')])]"







text \<open>
  Two requests (ids 3 and 4) on an open page; then the answer to 4, another request, an
  event and a malformed answer to 3; the answer to 3; a late second answer to 3.
\<close>

definition two_requests :: "action list" where
  "two_requests = [AOpen, ASend ''Page.reload'' None, ASend ''Page.stopLoading'' None]"

definition interleaved :: "action list" where
  "interleaved =
     [AFrame (result_frame 4 (JObj [])), ASend ''Page.bringToFront'' None,
      AFrame (Parsed (JObj load_event)), AFrame (error_frame 3 JNull)]"

definition answer_three :: "(string \<times> json) list" where
  "answer_three = [(''id'', JNum 3), (''result'', JObj [(''frameId'', JStr ''F'')])]"

definition late_duplicate :: "action list" where
  "late_duplicate = [AFrame (error_frame 3 (JObj [(''code'', JNum 1)]))]"

section \<open>Properties\<close>

subsection \<open>Promises, the emitter and the receive path\<close>

lemma settle_length [simp]: "length (settle ps h out) = length ps"
  by (simp add: settle_def)

lemma settle_other: "h' \<noteq> h \<Longrightarrow> settle ps h out ! h' = ps ! h'"
  by (simp add: settle_def)

lemma settle_pending: "h < length ps \<Longrightarrow> ps ! h = Pending \<Longrightarrow> settle ps h out ! h = out"
  by (simp add: settle_def)

lemma settle_settled: "ps ! h' \<noteq> Pending \<Longrightarrow> settle ps h out ! h' = ps ! h'"
  by (cases "h' = h") (simp_all add: settle_def)

lemma settle_fresh: "settle (ps @ [Pending]) (length ps) out = ps @ [out]"
  by (simp add: settle_def)

lemma dispatch_frame [simp]:
  "packetCallbacks (snd (dispatch s name ls p)) = packetCallbacks s"
  "requests (snd (dispatch s name ls p)) = requests s"
  "packetCounter (snd (dispatch s name ls p)) = packetCounter s"
  "sent (snd (dispatch s name ls p)) = sent s"
  "socketOpen (snd (dispatch s name ls p)) = socketOpen s"
  "awaiting (snd (dispatch s name ls p)) = awaiting s"
  "console (snd (dispatch s name ls p)) = console s"
  by (induction s name ls p rule: dispatch.induct; simp add: Let_def)+

lemma emit_frame [simp]:
  "packetCallbacks (snd (emit s e name p)) = packetCallbacks s"
  "requests (snd (emit s e name p)) = requests s"
  "packetCounter (snd (emit s e name p)) = packetCounter s"
  "sent (snd (emit s e name p)) = sent s"
  "socketOpen (snd (emit s e name p)) = socketOpen s"
  "awaiting (snd (emit s e name p)) = awaiting s"
  "console (snd (emit s e name p)) = console s"
  by (simp_all add: emit_def)

lemma dispatch_calls:
  "calls (snd (dispatch s name ls p)) = calls s @ map (\<lambda>l. (l, p)) (invoked ls p)"
  by (induction s name ls p rule: dispatch.induct) (simp_all add: Let_def)

lemma invoked_none_raises: "none_raises ls p \<Longrightarrow> invoked ls p = durable_labels ls"
  by (induction ls p rule: invoked.induct) (auto simp: none_raises_def)

lemma dispatch_returns: "none_raises ls p \<Longrightarrow> fst (dispatch s name ls p) = None"
  by (induction s name ls p rule: dispatch.induct) (auto simp: none_raises_def Let_def)

lemma dispatch_length_waits [simp]: "length (waits (snd (dispatch s name ls p))) = length (waits s)"
  by (induction s name ls p rule: dispatch.induct) (simp_all add: Let_def)

lemma dispatch_waits_other:
  "Once w \<notin> set ls \<Longrightarrow> waits (snd (dispatch s name ls p)) ! w = waits s ! w"
  by (induction s name ls p rule: dispatch.induct) (auto simp: Let_def settle_other)

lemma dispatch_waits_kept:
  "waits s ! w \<noteq> Pending \<Longrightarrow> waits (snd (dispatch s name ls p)) ! w = waits s ! w"
  by (induction s name ls p rule: dispatch.induct) (auto simp: Let_def settle_settled)

lemma dispatch_waits_delivered:
  "none_raises ls p \<Longrightarrow> Once w \<in> set ls \<Longrightarrow> w < length (waits s) \<Longrightarrow> waits s ! w = Pending
     \<Longrightarrow> waits (snd (dispatch s name ls p)) ! w = Fulfilled p"
proof (induction s name ls p rule: dispatch.induct)
  case (1 s name p)
  then show ?case by simp
next
  case (2 s name l r ls p)
  then show ?case by (auto simp: none_raises_def Let_def)
next
  case (3 s name v ls p)
  let ?s1 = "s\<lparr>eventEmitter := removeListener (eventEmitter s) name v,
                waits := settle (waits s) v (Fulfilled p)\<rparr>"
  have nr: "none_raises ls p" using "3.prems"(1) by (simp add: none_raises_def)
  show ?case
  proof (cases "v = w")
    case True
    have "waits ?s1 ! w = Fulfilled p"
      using True "3.prems" by (simp add: settle_pending)
    then have "waits (snd (dispatch ?s1 name ls p)) ! w = Fulfilled p"
      by (simp add: dispatch_waits_kept)
    then show ?thesis by simp
  next
    case False
    then have "Once w \<in> set ls" using "3.prems"(2) by simp
    moreover have "waits ?s1 ! w = Pending" "w < length (waits ?s1)"
      using False "3.prems" by (simp_all add: settle_other)
    ultimately show ?thesis using "3.IH" nr by simp
  qed
qed

lemma dispatch_emitter:
  "none_raises ls p \<Longrightarrow>
   eventEmitter (snd (dispatch s name ls p)) =
     filter (\<lambda>e. \<not> (fst e = name \<and> snd e \<in> set ls \<and> is_waiter (snd e))) (eventEmitter s)"
proof (induction s name ls p rule: dispatch.induct)
  case (1 s name p)
  then show ?case by simp
next
  case (2 s name l r ls p)
  then have "none_raises ls p" "\<not> r p" by (auto simp: none_raises_def)
  with 2 show ?case 
    apply (simp add: Let_def) 
    apply (rule filter_cong) apply simp
    apply auto
    done
next
  case (3 s name v ls p)
  then have nr: "none_raises ls p" by (simp add: none_raises_def)
  let ?s1 = "s\<lparr>eventEmitter := removeListener (eventEmitter s) name v,
                waits := settle (waits s) v (Fulfilled p)\<rparr>"
  have eq: "(\<not> (fst e = name \<and> is_once v (snd e)) \<and> \<not> (fst e = name \<and> snd e \<in> set ls \<and> is_waiter (snd e)))
         = (\<not> (fst e = name \<and> snd e \<in> set (Once v # ls) \<and> is_waiter (snd e)))" for e
    by (cases "snd e") auto
  have "eventEmitter (snd (dispatch s name (Once v # ls) p)) = eventEmitter (snd (dispatch ?s1 name ls p))"
    by simp
  also have "\<dots> = filter (\<lambda>e. \<not> (fst e = name \<and> snd e \<in> set ls \<and> is_waiter (snd e))) (eventEmitter ?s1)"
    using "3.IH" nr by blast
  also have "\<dots> = filter (\<lambda>e. \<not> (fst e = name \<and> is_once v (snd e)) \<and> \<not> (fst e = name \<and> snd e \<in> set ls \<and> is_waiter (snd e))) (eventEmitter s)"
    by (simp add: removeListener_def del: de_Morgan_conj)
  also have "\<dots> = filter (\<lambda>e. \<not> (fst e = name \<and> snd e \<in> set (Once v # ls) \<and> is_waiter (snd e))) (eventEmitter s)"
    by (rule filter_cong [OF refl]) (rule eq)
  finally show ?case .
qed

lemma once_listener_of: "(Once w \<in> set (listeners_of s name)) = ((name, Once w) \<in> set (eventEmitter s))"
  by (force simp: listeners_of_def)

lemma waiter_filter:
  "filter (\<lambda>e. \<not> (fst e = name \<and> snd e \<in> set (listeners_of s name) \<and> is_waiter (snd e))) (eventEmitter s)
     = filter (\<lambda>e. \<not> (fst e = name \<and> is_waiter (snd e))) (eventEmitter s)"
  by (rule filter_cong [OF refl]) (force simp: listeners_of_def)

lemma callback_key_nat [simp]: "callback_key (JNum (of_nat i)) = Some i"
  by simp

lemma js_incr_small: "js_incr 0 = 1" "js_incr (Suc 0) = 2" "js_incr 2 = 3" "js_incr 3 = 4"
  by (simp_all add: js_incr_def)

lemma js_incr_ge: "n \<le> js_incr n"
  by (simp add: js_incr_def)

lemma send_open:
  "socketOpen s \<Longrightarrow>
   send s m ps =
     (length (requests s),
      s\<lparr>requests := requests s @ [Pending],
        packetCounter := js_incr (packetCounter s),
        packetCallbacks := (packetCallbacks s)(js_incr (packetCounter s) \<mapsto> length (requests s)),
        sent := sent s @ [request_frame (js_incr (packetCounter s)) m
                            (case ps of None \<Rightarrow> JObj [] | Some v \<Rightarrow> v)]\<rparr>)"
  by (simp add: send_def send_body_def Let_def)

lemma send_body_fields [simp]:
  "requests (send_body s h m p) = requests s"
  "awaiting (send_body s h m p) = awaiting s"
  "socketOpen (send_body s h m p) = socketOpen s"
  "packetCounter (send_body s h m p) = js_incr (packetCounter s)"
  "packetCallbacks (send_body s h m p) = (packetCallbacks s)(js_incr (packetCounter s) \<mapsto> h)"
  by (simp_all add: send_body_def Let_def)

lemma send_registers:
  "socketOpen t \<Longrightarrow> send t m ps = (h, t') \<Longrightarrow>
   packetCallbacks t' (packetCounter t') = Some h \<and>
   last (sent t') = request_frame (packetCounter t') m (case ps of None \<Rightarrow> JObj [] | Some v \<Rightarrow> v)"
  by (auto simp: send_open)

lemma onMessage_fields [simp]:
  "packetCounter (snd (onMessage conv s message)) = packetCounter s"
  "socketOpen (snd (onMessage conv s message)) = socketOpen s"
  "awaiting (snd (onMessage conv s message)) = awaiting s"
  "sent (snd (onMessage conv s message)) = sent s"
  by (auto simp: onMessage_def split: parsed.splits json.splits option.splits prod.splits)

lemma onMessage_result:
  "packetCallbacks s i = Some h \<Longrightarrow>
   onMessage conv s (result_frame i r) =
     (None, s\<lparr>requests := settle (requests s) h (Fulfilled (Some r)),
              packetCallbacks := (packetCallbacks s)(i := None)\<rparr>)"
  by (simp add: onMessage_def result_frame_def pending_callback_def)


lemma onMessage_not_pending:
  "pending_callback s fs = None \<Longrightarrow>
   packetCallbacks (snd (onMessage conv s (Parsed (JObj fs)))) = packetCallbacks s \<and>
   requests (snd (onMessage conv s (Parsed (JObj fs)))) = requests s"
  by (simp add: onMessage_def split: option.splits prod.splits)

lemma onMessage_error_null:
  "pending_callback s fs = Some (j, h) \<Longrightarrow> map_of fs ''error'' = Some JNull \<Longrightarrow>
   onMessage conv s (Parsed (JObj fs)) = (Some TypeError, s)"
  by (simp add: onMessage_def)

lemma onMessage_pending:
  "pending_callback s fs = Some (j, h) \<Longrightarrow> map_of fs ''error'' \<noteq> Some JNull \<Longrightarrow>
   fst (onMessage conv s (Parsed (JObj fs))) = None \<and>
   packetCallbacks (snd (onMessage conv s (Parsed (JObj fs)))) = (packetCallbacks s)(j := None) \<and>
   requests (snd (onMessage conv s (Parsed (JObj fs)))) = settle (requests s) h (response_outcome fs)"
  by (simp add: onMessage_def response_outcome_def split: option.splits)

lemma onMessage_other:
  "\<forall>fs. message \<noteq> Parsed (JObj fs) \<Longrightarrow>
   packetCallbacks (snd (onMessage conv s message)) = packetCallbacks s \<and>
   requests (snd (onMessage conv s message)) = requests s"
  by (auto simp: onMessage_def split: parsed.splits json.splits)

lemma onMessage_requests:
  "requests (snd (onMessage conv s message)) = requests s \<or>
   (\<exists>h out. requests (snd (onMessage conv s message)) = settle (requests s) h out)"
proof (cases "\<exists>fs. message = Parsed (JObj fs)")
  case False
  then show ?thesis by (simp add: onMessage_other)
next
  case True
  then obtain fs where m: "message = Parsed (JObj fs)" by blast
  show ?thesis
  proof (cases "pending_callback s fs")
    case None
    then show ?thesis by (simp add: m onMessage_not_pending)
  next
    case (Some jh)
    obtain j h where jh: "jh = (j, h)" by (cases jh)
    show ?thesis
    proof (cases "map_of fs ''error'' = Some JNull")
      case True
      then show ?thesis using Some jh by (simp add: m onMessage_error_null)
    next
      case False
      then show ?thesis
        using onMessage_pending [OF Some [unfolded jh] False, of conv] m by blast
    qed
  qed
qed

lemma example_page_fields:
  "packetCounter example_page = 2"
  "packetCallbacks example_page = [1 \<mapsto> 0, 2 \<mapsto> 1]"
  "requests example_page = [Pending, Pending]"
  "waits example_page = []"
  "calls example_page = []"
  "console example_page = []"
  "socketOpen example_page"
  "awaiting example_page = []"
  "eventEmitter example_page = [(''Console.messageAdded'', Durable 0 console_listener_raises)]"
  "sent example_page = [request_frame 1 ''Console.enable'' (JObj []), request_frame 2 ''Page.enable'' (JObj [])]"
  by (simp_all add: example_page_def socket_open_def new_page_def send_def send_body_def listen_def
        js_incr_small Let_def)

subsection \<open>C1: responses reach the request they answer\<close>

lemma resume_simps [simp]:
  "resume t [] = t"
  "resume t ((h, m, p) # q) = resume (send_body t h m p) q"
  by (simp_all add: resume_def)

lemma socket_open_resume: "socket_open s = resume (s\<lparr>socketOpen := True, awaiting := []\<rparr>) (awaiting s)"
  by (simp add: socket_open_def resume_def)

lemma resume_snoc: "resume t (q @ [(h, m, p)]) = send_body (resume t q) h m p"
  by (simp add: resume_def)

lemma resume_append: "resume t (q @ r) = resume (resume t q) r"
  by (simp add: resume_def)

lemma resume_socketOpen [simp]: "socketOpen (resume t q) = socketOpen t"
proof (induction q arbitrary: t)
  case Nil
  show ?case by simp
next
  case (Cons a q)
  obtain h m p where a: "a = (h, m, p)" by (cases a) auto
  show ?case
    unfolding a resume_simps Cons.IH by simp
qed

lemma send_body_sent [simp]:
  "sent (send_body s h m p) = sent s @ [request_frame (js_incr (packetCounter s)) m p]"
  by (simp add: send_body_def Let_def)


lemma resume_sent_subset: "set (sent t) \<subseteq> set (sent (resume t q))"
proof (induction q arbitrary: t)
  case Nil
  show ?case by simp
next
  case (Cons a q)
  obtain h m p where a: "a = (h, m, p)" by (cases a) auto
  have "set (sent t) \<subseteq> set (sent (send_body t h m p))"
    by auto
  also have "\<dots> \<subseteq> set (sent (resume (send_body t h m p) q))"
    by (rule Cons.IH)
  finally show ?case
    by (simp add: a)
qed

lemma send_body_inv:
  assumes "callbacks_inv s" and "queue_ok s ((h, m, p) # q)"
  shows "callbacks_inv (send_body s h m p) \<and> queue_ok (send_body s h m p) q"
proof -
  from assms(2) have h: "h < length (requests s)" "requests s ! h = Pending"
    "\<forall>i. packetCallbacks s i \<noteq> Some h" "h \<notin> fst ` set q" "queue_ok s q"
    by (auto simp: queue_ok_def)
  have "callbacks_inv (send_body s h m p)"
    using assms(1) h(1-3) js_incr_ge [of "packetCounter s"]
    by (auto simp: callbacks_inv_def intro: le_trans)
  moreover have "queue_ok (send_body s h m p) q"
    using h(4,5) by (auto simp: queue_ok_def)
  ultimately show ?thesis by simp
qed

lemma resume_inv:
  "callbacks_inv t \<Longrightarrow> queue_ok t q \<Longrightarrow> callbacks_inv (resume t q) \<and> queue_ok (resume t q) []"
proof (induction q arbitrary: t)
  case Nil
  then show ?case by (simp add: queue_ok_def)
next
  case (Cons x q)
  obtain h m p where x: "x = (h, m, p)" by (cases x)
  from send_body_inv [OF Cons.prems(1) Cons.prems(2) [unfolded x]]
  show ?case unfolding x by (simp add: Cons.IH)
qed

lemma resume_awaiting [simp]: "awaiting (resume t q) = awaiting t"
  by (induction q arbitrary: t) auto

lemma socket_open_inv: "page_inv s \<Longrightarrow> page_inv (socket_open s)"
proof -
  assume a: "page_inv s"
  let ?t = "s\<lparr>socketOpen := True, awaiting := []\<rparr>"
  have "callbacks_inv ?t" "queue_ok ?t (awaiting s)"
    using a by (simp_all add: page_inv_def callbacks_inv_def queue_ok_def)
  then have "callbacks_inv (resume ?t (awaiting s)) \<and> queue_ok (resume ?t (awaiting s)) []"
    by (rule resume_inv)
  then show ?thesis
    by (simp add: page_inv_def socket_open_resume)
qed

lemma send_inv: "page_inv s \<Longrightarrow> page_inv (snd (send s m ps))"
proof -
  assume a: "page_inv s"
  let ?h = "length (requests s)"
  let ?p = "case ps of None \<Rightarrow> JObj [] | Some v \<Rightarrow> v"
  let ?s1 = "s\<lparr>requests := requests s @ [Pending]\<rparr>"
  have c1: "callbacks_inv ?s1"
    using a by (auto simp: page_inv_def callbacks_inv_def nth_append less_Suc_eq)
  have fresh: "\<forall>i. packetCallbacks s i \<noteq> Some ?h" "?h \<notin> fst ` set (awaiting s)"
    using a by (auto simp: page_inv_def callbacks_inv_def queue_ok_def)
  have q1: "queue_ok ?s1 (awaiting s @ [(?h, m, ?p)])"
    using a fresh by (auto simp: page_inv_def queue_ok_def nth_append less_Suc_eq)
  show ?thesis
  proof (cases "socketOpen s")
    case True
    have "queue_ok ?s1 ((?h, m, ?p) # awaiting s)"
      using q1 by (auto simp: queue_ok_def)
    from send_body_inv [OF c1 this] True show ?thesis
      by (simp add: send_def Let_def page_inv_def)
  next
    case False
    then show ?thesis
      using c1 q1 by (simp add: send_def Let_def page_inv_def callbacks_inv_def queue_ok_def)
  qed
qed

lemma onMessage_inv: "page_inv s \<Longrightarrow> page_inv (snd (onMessage conv s message))"
proof -
  assume a: "page_inv s"
  have unchanged: "page_inv t"
    if "packetCallbacks t = packetCallbacks s" "requests t = requests s"
       "packetCounter t = packetCounter s" "awaiting t = awaiting s" for t
    using a that by (simp add: page_inv_def callbacks_inv_def queue_ok_def)
  have settled: "page_inv (s\<lparr>requests := settle (requests s) h out,
                             packetCallbacks := (packetCallbacks s)(i := None)\<rparr>)"
    if "packetCallbacks s i = Some h" for i h out
  proof -
    have other: "settle (requests s) h out ! h' = requests s ! h'" if "h' \<noteq> h" for h'
      using that by (simp add: settle_other)
    have reg: "h' \<noteq> h" if "packetCallbacks s j = Some h'" "j \<noteq> i" for j h'
      using a that \<open>packetCallbacks s i = Some h\<close> by (auto simp: page_inv_def callbacks_inv_def)
    have wq: "h' \<noteq> h" if "h' \<in> fst ` set (awaiting s)" for h'
      using a that \<open>packetCallbacks s i = Some h\<close> by (auto simp: page_inv_def queue_ok_def)
    show ?thesis
      using a by (auto simp: page_inv_def callbacks_inv_def queue_ok_def other reg wq)
  qed
  have settled': "page_inv (s\<lparr>console := c, requests := settle (requests s) h out,
                             packetCallbacks := (packetCallbacks s)(i := None)\<rparr>)"
    if "packetCallbacks s i = Some h" for i h out c
    using settled [OF that, of out] by (simp add: page_inv_def callbacks_inv_def queue_ok_def)
  show ?thesis
    by (auto simp: onMessage_def pending_callback_def a unchanged settled settled'
             split: parsed.splits json.splits option.splits prod.splits if_splits)
qed

lemma step_inv: "page_inv s \<Longrightarrow> page_inv (step conv s a)"
proof (cases a)
  case (ASend m ps)
  then show "page_inv s \<Longrightarrow> ?thesis" by (simp add: send_inv)
next
  case (AListen m l)
  then show "page_inv s \<Longrightarrow> ?thesis"
    by (simp add: listen_def page_inv_def callbacks_inv_def queue_ok_def)
next
  case (AWait m)
  then show "page_inv s \<Longrightarrow> ?thesis"
    by (simp add: wait_def Let_def page_inv_def callbacks_inv_def queue_ok_def)
next
  case AOpen
  then show "page_inv s \<Longrightarrow> ?thesis" by (simp add: socket_open_inv)
next
  case (AFrame message)
  then show "page_inv s \<Longrightarrow> ?thesis" by (simp add: onMessage_inv)
qed

lemma run_Nil [simp]: "run conv s [] = s"
  by (simp add: run_def)

lemma run_Cons [simp]: "run conv s (a # acts) = run conv (step conv s a) acts"
  by (simp add: run_def)

lemma run_append: "run conv s (acts @ acts') = run conv (run conv s acts) acts'"
  by (simp add: run_def)

lemma run_inv: "page_inv s \<Longrightarrow> page_inv (run conv s acts)"
  by (induction acts arbitrary: s) (simp_all add: step_inv)

lemma new_page_inv: "page_inv (new_page d)"
  by (simp add: new_page_def send_def listen_def Let_def page_inv_def callbacks_inv_def queue_ok_def)

lemma resume_counter_mono: "packetCounter t \<le> packetCounter (resume t q)"
proof (induction q arbitrary: t)
  case Nil
  show ?case by simp
next
  case (Cons x q)
  obtain h m p where x: "x = (h, m, p)" by (cases x)
  have "packetCounter t \<le> packetCounter (send_body t h m p)"
    by (simp add: js_incr_ge)
  also have "\<dots> \<le> packetCounter (resume (send_body t h m p) q)"
    by (rule Cons.IH)
  finally show ?case by (simp add: x)
qed

lemma step_counter_mono: "packetCounter s \<le> packetCounter (step conv s a)"
proof (cases a)
  case (ASend m ps)
  then show ?thesis by (simp add: send_def Let_def js_incr_ge)
next
  case AOpen
  then show ?thesis
    using resume_counter_mono [of "s\<lparr>socketOpen := True, awaiting := []\<rparr>" "awaiting s"]
    by (simp add: socket_open_resume)
qed (simp_all add: listen_def wait_def Let_def)

lemma run_counter_mono: "packetCounter s \<le> packetCounter (run conv s acts)"
proof (induction acts arbitrary: s)
  case Nil
  show ?case by simp
next
  case (Cons a acts)
  have "packetCounter s \<le> packetCounter (step conv s a)"
    by (rule step_counter_mono)
  also have "\<dots> \<le> packetCounter (run conv (step conv s a) acts)"
    by (rule Cons.IH)
  finally show ?case by simp
qed

lemma send_body_keeps:
  assumes "packetCallbacks s i = Some h" and "i \<le> packetCounter s"
    and "packetCounter (send_body s h' m p) < 2 ^ 53"
  shows "packetCallbacks (send_body s h' m p) i = Some h"
proof -
  have "packetCounter s < 2 ^ 53"
    using assms(3) js_incr_ge [of "packetCounter s"] by simp
  then have "js_incr (packetCounter s) = packetCounter s + 1"
    by (simp add: js_incr_def)
  then show ?thesis
    using assms(1,2) by simp
qed

lemma resume_keeps:
  "packetCallbacks t i = Some h \<Longrightarrow> i \<le> packetCounter t \<Longrightarrow> packetCounter (resume t q) < 2 ^ 53
     \<Longrightarrow> packetCallbacks (resume t q) i = Some h"
proof (induction q arbitrary: t)
  case Nil
  then show ?case by simp
next
  case (Cons x q)
  obtain h' m p where x: "x = (h', m, p)" by (cases x)
  let ?t = "send_body t h' m p"
  have fin: "packetCounter (resume ?t q) < 2 ^ 53"
    using Cons.prems(3) by (simp add: x)
  then have "packetCounter ?t < 2 ^ 53"
    using resume_counter_mono [of ?t q] by simp
  then have "packetCallbacks ?t i = Some h"
    using Cons.prems(1,2) by (rule send_body_keeps [rotated 2])
  moreover have "i \<le> packetCounter ?t"
    using Cons.prems(2) js_incr_ge [of "packetCounter t"] by simp
  ultimately show ?case
    using Cons.IH fin by (simp add: x)
qed

lemma step_keeps_pending:
  assumes "page_inv s" and "packetCallbacks s i = Some h" and "\<not> answers i a"
    and "packetCounter (step conv s a) < 2 ^ 53"
  shows "packetCallbacks (step conv s a) i = Some h"
proof -
  have le: "i \<le> packetCounter s"
    using assms(1,2) by (auto simp: page_inv_def callbacks_inv_def)
  show ?thesis
  proof (cases a)
    case (ASend m ps)
    show ?thesis
    proof (cases "socketOpen s")
      case True
      let ?s1 = "s\<lparr>requests := requests s @ [Pending]\<rparr>"
      let ?p = "case ps of None \<Rightarrow> JObj [] | Some v \<Rightarrow> v"
      have st: "step conv s a = send_body ?s1 (length (requests s)) m ?p"
        using True ASend by (simp add: send_def Let_def)
      show ?thesis
        unfolding st
        by (rule send_body_keeps) (use assms(2,4) le st in simp_all)
    next
      case False
      then show ?thesis
        using ASend assms(2) by (simp add: send_def Let_def)
    qed
  next
    case (AListen m l)
    then show ?thesis using assms(2) by (simp add: listen_def)
  next
    case (AWait m)
    then show ?thesis using assms(2) by (simp add: wait_def Let_def)
  next
    case AOpen
    let ?t = "s\<lparr>socketOpen := True, awaiting := []\<rparr>"
    have "packetCallbacks (resume ?t (awaiting s)) i = Some h"
      by (rule resume_keeps) (use assms(2,4) le AOpen in \<open>simp_all add: socket_open_resume\<close>)
    then show ?thesis
      using AOpen by (simp add: socket_open_resume)
  next
    case (AFrame message)
    show ?thesis
    proof (cases "\<exists>fs. message = Parsed (JObj fs)")
      case False
      then show ?thesis
        using AFrame assms(2) by (simp add: onMessage_other)
    next
      case True
      then obtain fs where m: "message = Parsed (JObj fs)" by blast
      show ?thesis
      proof (cases "pending_callback s fs")
        case None
        then show ?thesis
          using AFrame m assms(2) by (simp add: onMessage_not_pending)
      next
        case (Some jh)
        obtain j h' where jh: "jh = (j, h')" by (cases jh)
        show ?thesis
        proof (cases "map_of fs ''error'' = Some JNull")
          case True
          then show ?thesis
            using AFrame m assms(2) Some jh by (simp add: onMessage_error_null)
        next
          case False
          have "j \<noteq> i"
          proof
            assume "j = i"
            then have "answers i a"
              using Some jh False AFrame m
              by (auto simp: pending_callback_def split: option.splits)
            then show False using assms(3) by simp
          qed
          then show ?thesis
            using AFrame m assms(2) onMessage_pending [OF Some [unfolded jh] False, of conv] by simp
        qed
      qed
    qed
  qed
qed

lemma run_keeps_pending:
  "page_inv s \<Longrightarrow> packetCallbacks s i = Some h \<Longrightarrow> \<forall>a \<in> set acts. \<not> answers i a \<Longrightarrow>
   packetCounter (run conv s acts) < 2 ^ 53 \<Longrightarrow> packetCallbacks (run conv s acts) i = Some h"
proof (induction acts arbitrary: s)
  case Nil
  then show ?case by simp
next
  case (Cons a acts)
  have "packetCounter (step conv s a) \<le> packetCounter (run conv (step conv s a) acts)"
    by (rule run_counter_mono)
  then have "packetCounter (step conv s a) < 2 ^ 53"
    using Cons.prems(4) by simp
  then have "packetCallbacks (step conv s a) i = Some h"
    using Cons.prems(1,2,3) by (intro step_keeps_pending) simp_all
  moreover have "page_inv (step conv s a)"
    using Cons.prems(1) by (rule step_inv)
  ultimately show ?case
    using Cons.IH Cons.prems(3,4) by simp
qed

lemma resume_requests [simp]: "requests (resume t q) = requests t"
  by (induction q arbitrary: t) auto

lemma step_settled_stays:
  assumes "h < length (requests s)" and "requests s ! h \<noteq> Pending"
  shows "h < length (requests (step conv s a)) \<and> requests (step conv s a) ! h = requests s ! h"
proof (cases a)
  case (ASend m ps)
  then show ?thesis using assms(1) by (simp add: send_def Let_def nth_append)
next
  case (AListen m l)
  then show ?thesis using assms(1) by (simp add: listen_def)
next
  case (AWait m)
  then show ?thesis using assms(1) by (simp add: wait_def Let_def)
next
  case AOpen
  then show ?thesis using assms(1) by (simp add: socket_open_resume)
next
  case (AFrame message)
  then show ?thesis
    using assms onMessage_requests [of conv s message] by (auto simp: settle_settled)
qed

lemma run_settled_stays:
  "h < length (requests s) \<Longrightarrow> requests s ! h \<noteq> Pending \<Longrightarrow>
   requests (run conv s acts) ! h = requests s ! h"
proof (induction acts arbitrary: s)
  case Nil
  show ?case by simp
next
  case (Cons a acts)
  from step_settled_stays [OF Cons.prems, of conv a]
  have "h < length (requests (step conv s a))" "requests (step conv s a) ! h = requests s ! h"
    by simp_all
  then show ?case
    using Cons.IH [of "step conv s a"] Cons.prems(2) by simp
qed

lemma response_outcome_settled: "response_outcome fs \<noteq> Pending"
  by (simp add: response_outcome_def split: option.splits)

lemma resume_counter_exact:
  "packetCounter (resume t q) < 2 ^ 53 \<Longrightarrow> packetCounter (resume t q) = packetCounter t + length q"
proof (induction q arbitrary: t)
  case Nil
  show ?case by simp
next
  case (Cons a q)
  obtain h m p where a: "a = (h, m, p)" by (cases a) auto
  let ?t = "send_body t h m p"
  from Cons.prems have b: "packetCounter (resume ?t q) < 2 ^ 53"
    by (simp add: a)
  from Cons.IH [OF b] have e: "packetCounter (resume ?t q) = js_incr (packetCounter t) + length q"
    by simp
  have "js_incr (packetCounter t) \<le> packetCounter (resume ?t q)"
    unfolding e by simp
  then have "js_incr (packetCounter t) < 2 ^ 53"
    using b by (rule le_less_trans)
  with js_incr_ge [of "packetCounter t"] have "packetCounter t < 2 ^ 53"
    by (rule le_less_trans)
  then have "js_incr (packetCounter t) = packetCounter t + 1"
    by (simp add: js_incr_def)
  then show ?case
    using e by (simp add: a)
qed

lemma step_quiet:
  "\<not> opens a \<Longrightarrow>
   socketOpen (step conv s a) = socketOpen s \<and> (\<exists>r. awaiting (step conv s a) = awaiting s @ r)"
  by (cases a) (simp_all add: send_def Let_def listen_def wait_def)

lemma run_quiet:
  "list_all (\<lambda>a. \<not> opens a) mid \<Longrightarrow>
   socketOpen (run conv s mid) = socketOpen s \<and> (\<exists>r. awaiting (run conv s mid) = awaiting s @ r)"
proof (induction mid arbitrary: s)
  case Nil
  show ?case by simp
next
  case (Cons a mid)
  from Cons.prems have a: "\<not> opens a" and m: "list_all (\<lambda>a. \<not> opens a) mid"
    by simp_all
  from step_quiet [OF a, of conv s]
  obtain r where 1: "socketOpen (step conv s a) = socketOpen s" "awaiting (step conv s a) = awaiting s @ r"
    by blast
  from Cons.IH [OF m, of "step conv s a"]
  obtain r' where 2: "socketOpen (run conv (step conv s a) mid) = socketOpen (step conv s a)"
      "awaiting (run conv (step conv s a) mid) = awaiting (step conv s a) @ r'"
    by blast
  show ?case
    using 1 2 by simp
qed

lemma send_issued:
  assumes inv: "page_inv s"
    and mid: "list_all (\<lambda>a. \<not> opens a) mid"
    and fin: "packetCounter (issued conv s m ps mid) < 2 ^ 53"
  shows "last (sent (written conv s m ps mid))
           = request_frame (allocated conv s m ps mid) m (case ps of None \<Rightarrow> JObj [] | Some v \<Rightarrow> v) \<and>
         request_frame (allocated conv s m ps mid) m (case ps of None \<Rightarrow> JObj [] | Some v \<Rightarrow> v)
           \<in> set (sent (issued conv s m ps mid)) \<and>
         allocated conv s m ps mid
           = (if socketOpen s then packetCounter s + 1
              else packetCounter (run conv (snd (send s m ps)) mid) + length (awaiting s) + 1) \<and>
         packetCallbacks (issued conv s m ps mid) (allocated conv s m ps mid) = Some (fst (send s m ps)) \<and>
         page_inv (issued conv s m ps mid)"
proof (cases "socketOpen s")
  case True
  have i: "issued conv s m ps mid = snd (send s m ps)" "written conv s m ps mid = snd (send s m ps)"
    using True by (simp_all add: issued_def written_def)
  have "js_incr (packetCounter s) < 2 ^ 53"
    using fin True by (simp add: i send_open)
  with js_incr_ge [of "packetCounter s"] have "packetCounter s < 2 ^ 53"
    by (rule le_less_trans)
  then have c: "js_incr (packetCounter s) = packetCounter s + 1"
    by (simp add: js_incr_def)
  have "page_inv (snd (send s m ps))"
    using inv by (rule send_inv)
  then show ?thesis
    using True c by (simp add: i allocated_def send_open)
next
  case False
  let ?h = "length (requests s)"
  let ?p = "case ps of None \<Rightarrow> JObj [] | Some v \<Rightarrow> v"
  define s1 where "s1 = snd (send s m ps)"
  have h: "fst (send s m ps) = ?h"
    by (simp add: send_def Let_def)
  have s1: "awaiting s1 = awaiting s @ [(?h, m, ?p)]" "\<not> socketOpen s1"
    using False by (simp_all add: s1_def send_def Let_def)
  define t where "t = run conv s1 mid"
  from run_quiet [OF mid, of conv s1]
  obtain r where t: "awaiting t = awaiting s @ (?h, m, ?p) # r"
    unfolding t_def using s1 by auto
  define t' where "t' = t\<lparr>socketOpen := True, awaiting := []\<rparr>"
  define v where "v = resume t' (awaiting s)"
  define w where "w = send_body v ?h m ?p"
  have w2: "w = resume t' (awaiting s @ [(?h, m, ?p)])"
    by (simp add: resume_snoc v_def w_def)
  have wr: "written conv s m ps mid = w"
    using False by (simp add: written_def Let_def s1_def [symmetric] t_def [symmetric]
        t'_def [symmetric] t w2)
  have so: "issued conv s m ps mid = socket_open t"
    using False by (simp add: issued_def s1_def t_def)
  have "socket_open t = resume t' (awaiting s @ [(?h, m, ?p)] @ r)"
    by (simp add: socket_open_resume t'_def t)
  then have iss: "issued conv s m ps mid = resume w r"
    unfolding so w2 by (simp only: resume_append)
  have al: "allocated conv s m ps mid = packetCounter w"
    by (simp add: allocated_def wr)
  have "packetCounter w \<le> packetCounter (resume w r)"
    by (rule resume_counter_mono)
  then have fw: "packetCounter w < 2 ^ 53"
    using fin unfolding iss by (rule le_less_trans)
  from resume_counter_exact [of t' "awaiting s @ [(?h, m, ?p)]"] fw
  have "packetCounter w = packetCounter t' + length (awaiting s @ [(?h, m, ?p)])"
    unfolding w2 by blast
  then have ex: "packetCounter w = packetCounter t + length (awaiting s) + 1"
    by (simp add: t'_def)
  have fr: "last (sent w) = request_frame (packetCounter w) m ?p"
    by (simp add: w_def)
  have "request_frame (packetCounter w) m ?p \<in> set (sent w)"
    by (simp add: w_def)
  then have mem: "request_frame (packetCounter w) m ?p \<in> set (sent (resume w r))"
    using resume_sent_subset [of w r] by blast
  have "packetCallbacks w (packetCounter w) = Some ?h"
    by (simp add: w_def)
  then have cb: "packetCallbacks (resume w r) (packetCounter w) = Some ?h"
    using fin unfolding iss by (intro resume_keeps) simp_all
  have "page_inv s1"
    unfolding s1_def using inv by (rule send_inv)
  then have "page_inv t"
    unfolding t_def by (rule run_inv)
  then have pi: "page_inv (issued conv s m ps mid)"
    unfolding so by (rule socket_open_inv)
  show ?thesis
    using False fr mem ex cb pi unfolding al h iss [symmetric] wr
    by (simp add: t_def s1_def)
qed

lemma two_requests_state:
  "packetCallbacks (run no_conversion (new_page example_target) two_requests) = [1 \<mapsto> 0, 2 \<mapsto> 1, 3 \<mapsto> Suc (Suc 0), 4 \<mapsto> Suc (Suc (Suc 0))]"
  "packetCounter (run no_conversion (new_page example_target) two_requests) = 4"
  "requests (run no_conversion (new_page example_target) two_requests) = [Pending, Pending, Pending, Pending]"
  "socketOpen (run no_conversion (new_page example_target) two_requests)"
  by (simp_all add: two_requests_def example_page_def [symmetric] send_open example_page_fields js_incr_small)

text \<open>
  C1 says that every call is rejected with the \<open>error\<close> of the response to its request. On
  the example page, whose requests 3 and 4 are pending, the response
  \<open>{id: 3, error: null}\<close> makes \<open>_onMessage\<close> raise a TypeError at \<open>json.error.code\<close>: the
  promise of request 3 is not rejected, it stays pending and filed.
\<close>

theorem null_error_leaves_pending:
  "requests (run no_conversion (new_page example_target) two_requests) ! 2 = Pending \<and>
   packetCallbacks (run no_conversion (new_page example_target) two_requests) 3 = Some 2 \<and>
   onMessage no_conversion (run no_conversion (new_page example_target) two_requests) (error_frame 3 JNull)
     = (Some TypeError, run no_conversion (new_page example_target) two_requests)"
proof -
  let ?s = "run no_conversion (new_page example_target) two_requests"
  have c: "packetCallbacks ?s 3 = Some 2"
    by (simp add: two_requests_state)
  then have "pending_callback ?s [(''id'', JNum (of_nat 3)), (''error'', JNull)] = Some (3, 2)"
    by (simp add: pending_callback_def)
  then have "onMessage no_conversion ?s (error_frame 3 JNull) = (Some TypeError, ?s)"
    unfolding error_frame_def by (rule onMessage_error_null) simp
  then show ?thesis
    using c by (simp add: two_requests_state)
qed

text \<open>
  C1, amended. Let \<open>send(m, ps)\<close> be called in a state \<open>s\<close> a page can reach; if the socket is
  not open yet, let it open after further calls and frames \<open>mid\<close>. The request written for
  the call carries the id \<open>i\<close> the counter has when the body of the call runs, which is
  one more than the counter's value at the call on an open socket, and the counter's
  value when the socket opens plus the call's position among the suspended calls
  otherwise; the promise \<open>h\<close> of the call is filed under \<open>i\<close> and under no other id. This
  and what follows hold as long as the counter stays below \<open>2^53\<close>, where ids are exact
  (from there on \<open>_packetCounter++\<close> no longer changes the counter and two calls share
  an id). Whatever happens next, in whatever order (further sends, responses to other
  requests, events, frames that raise), the promise stays pending as long as no frame
  answers \<open>i\<close>, that is, has the id \<open>i\<close> and not the error \<open>null\<close>. The first frame that
  answers \<open>i\<close> settles it: rejected with the frame's \<open>error\<close> if it has one, fulfilled with
  its \<open>result\<close> otherwise. Nothing that follows changes the outcome.
\<close>

theorem send_correlation:
  assumes "s = run conv (new_page d) before"
    and "list_all (\<lambda>a. \<not> opens a) mid"
    and "u = issued conv s m ps mid"
    and "i = allocated conv s m ps mid"
    and "h = fst (send s m ps)"
    and "\<forall>a \<in> set acts. \<not> answers i a"
    and "packetCounter (run conv u acts) < 2 ^ 53"
    and "answers i (AFrame (Parsed (JObj fs)))"
  shows "last (sent (written conv s m ps mid))
           = request_frame i m (case ps of None \<Rightarrow> JObj [] | Some v \<Rightarrow> v) \<and>
         request_frame i m (case ps of None \<Rightarrow> JObj [] | Some v \<Rightarrow> v) \<in> set (sent u) \<and>
         i = (if socketOpen s then packetCounter s + 1
              else packetCounter (run conv (snd (send s m ps)) mid) + length (awaiting s) + 1) \<and>
         packetCallbacks u i = Some h \<and>
         (\<forall>j. packetCallbacks u j = Some h \<longrightarrow> j = i) \<and>
         requests (run conv u acts) ! h = Pending \<and>
         requests (run conv u (acts @ AFrame (Parsed (JObj fs)) # after)) ! h = response_outcome fs"
proof -
  let ?t = "run conv u acts"
  let ?v = "step conv ?t (AFrame (Parsed (JObj fs)))"
  have "page_inv s"
    unfolding assms(1) by (rule run_inv) (rule new_page_inv)
  moreover have "packetCounter u \<le> packetCounter ?t"
    by (rule run_counter_mono)
  then have "packetCounter (issued conv s m ps mid) < 2 ^ 53"
    using assms(7) unfolding assms(3) by (rule le_less_trans)
  ultimately have iss: "last (sent (written conv s m ps mid))
           = request_frame i m (case ps of None \<Rightarrow> JObj [] | Some v \<Rightarrow> v)"
      "request_frame i m (case ps of None \<Rightarrow> JObj [] | Some v \<Rightarrow> v) \<in> set (sent u)"
      "i = (if socketOpen s then packetCounter s + 1
              else packetCounter (run conv (snd (send s m ps)) mid) + length (awaiting s) + 1)"
      "packetCallbacks u i = Some h" "page_inv u"
    using send_issued [OF _ assms(2), of s conv m ps] unfolding assms(3,4,5) by blast+
  have uniq: "\<forall>j. packetCallbacks u j = Some h \<longrightarrow> j = i"
    using iss(4,5) unfolding page_inv_def callbacks_inv_def by blast
  have inv: "page_inv ?t"
    using iss(5) by (rule run_inv)
  have cb: "packetCallbacks ?t i = Some h"
    using iss(5,4) assms(6,7) by (rule run_keeps_pending)
  then have h: "h < length (requests ?t)" "requests ?t ! h = Pending"
    using inv by (auto simp: page_inv_def callbacks_inv_def)
  have pc: "pending_callback ?t fs = Some (i, h)" and ne: "map_of fs ''error'' \<noteq> Some JNull"
    using assms(8) cb by (auto simp: pending_callback_def split: option.splits)
  have "requests ?v = settle (requests ?t) h (response_outcome fs)"
    using onMessage_pending [OF pc ne, of conv] by simp
  then have v: "requests ?v ! h = response_outcome fs" "h < length (requests ?v)"
    using h by (simp_all add: settle_pending)
  have "requests (run conv ?v after) ! h = requests ?v ! h"
    using v by (intro run_settled_stays) (simp_all add: response_outcome_settled)
  then have "requests (run conv u (acts @ AFrame (Parsed (JObj fs)) # after)) ! h = response_outcome fs"
    using v(1) by (simp add: run_append)
  then show ?thesis
    using iss(1,2,3,4) uniq h(2) by blast
qed

lemma suspended_call_state:
  "issued no_conversion (new_page example_target) ''Page.reload'' None [ASend ''Page.stopLoading'' None]
     = run no_conversion (new_page example_target) two_requests"
  "allocated no_conversion (new_page example_target) ''Page.reload'' None [ASend ''Page.stopLoading'' None] = 3"
  "fst (send (new_page example_target) ''Page.reload'' None) = 2"
  by (simp_all add: issued_def allocated_def written_def two_requests_def new_page_def send_def
      listen_def socket_open_def send_body_def Let_def js_incr_small)

text \<open>
  \<open>send('Page.reload')\<close> and \<open>send('Page.stopLoading')\<close> are called on a new page before its
  socket opens, behind the two calls of the constructor: they get the ids 3 and 4. The
  answer to request 4 comes before the answer to request 3: request 3 is still pending
  after it and is fulfilled by its own answer, which the late duplicate does not change.
\<close>

theorem send_correlation_witness:
  "list_all (\<lambda>a. \<not> opens a) [ASend ''Page.stopLoading'' None] \<and>
   allocated no_conversion (new_page example_target) ''Page.reload'' None [ASend ''Page.stopLoading'' None] = 3 \<and>
   fst (send (new_page example_target) ''Page.reload'' None) = 2 \<and>
   \<not> socketOpen (new_page example_target) \<and>
   list_all (\<lambda>a. \<not> answers 3 a) interleaved \<and>
   packetCounter (run no_conversion
       (issued no_conversion (new_page example_target) ''Page.reload'' None [ASend ''Page.stopLoading'' None])
       interleaved) = 5 \<and>
   answers 3 (AFrame (Parsed (JObj answer_three))) \<and>
   request_frame 3 ''Page.reload'' (JObj [])
     \<in> set (sent (issued no_conversion (new_page example_target) ''Page.reload'' None
                    [ASend ''Page.stopLoading'' None])) \<and>
   packetCallbacks
       (issued no_conversion (new_page example_target) ''Page.reload'' None [ASend ''Page.stopLoading'' None])
       3 = Some 2 \<and>
   requests (run no_conversion
       (issued no_conversion (new_page example_target) ''Page.reload'' None [ASend ''Page.stopLoading'' None])
       interleaved) ! 2 = Pending \<and>
   requests (run no_conversion
       (issued no_conversion (new_page example_target) ''Page.reload'' None [ASend ''Page.stopLoading'' None])
       interleaved) ! 3 = Fulfilled (Some (JObj [])) \<and>
   requests (run no_conversion
       (issued no_conversion (new_page example_target) ''Page.reload'' None [ASend ''Page.stopLoading'' None])
       (interleaved @ AFrame (Parsed (JObj answer_three)) # late_duplicate)) ! 2
     = Fulfilled (Some (JObj [(''frameId'', JStr ''F'')]))"
proof -
  let ?s = "run no_conversion (new_page example_target) two_requests"
  let ?u = "issued no_conversion (new_page example_target) ''Page.reload'' None [ASend ''Page.stopLoading'' None]"
  have h1: "new_page example_target = run no_conversion (new_page example_target) []"
    by simp
  have h2: "list_all (\<lambda>a. \<not> opens a) [ASend ''Page.stopLoading'' None]"
    by simp
  have h3: "?u = ?u"
    by simp
  have h4: "3 = allocated no_conversion (new_page example_target) ''Page.reload'' None [ASend ''Page.stopLoading'' None]"
    by (simp add: suspended_call_state)
  have h5: "2 = fst (send (new_page example_target) ''Page.reload'' None)"
    by (simp add: suspended_call_state)
  have h6: "\<forall>a \<in> set interleaved. \<not> answers 3 a"
    by (simp add: interleaved_def result_frame_def error_frame_def load_event_def)
  have c: "packetCounter (run no_conversion ?u interleaved) = 5"
    unfolding suspended_call_state
    by (simp add: interleaved_def send_open two_requests_state js_incr_def)
  have h7: "packetCounter (run no_conversion ?u interleaved) < 2 ^ 53"
    by (simp add: c)
  have h8: "answers 3 (AFrame (Parsed (JObj answer_three)))"
    by (simp add: answer_three_def)
  have o: "response_outcome answer_three = Fulfilled (Some (JObj [(''frameId'', JStr ''F'')]))"
    by (simp add: response_outcome_def answer_three_def)
  have r: "requests (run no_conversion ?u interleaved) ! 3 = Fulfilled (Some (JObj []))"
    unfolding suspended_call_state
    by (simp add: interleaved_def send_open two_requests_state onMessage_result)
       (simp add: onMessage_def pending_callback_def load_event_def error_frame_def settle_def)
  have n: "\<not> socketOpen (new_page example_target)"
    by (simp add: new_page_def send_def listen_def Let_def)
  from send_correlation [OF h1 h2 h3 h4 h5 h6 h7 h8, of late_duplicate]
  have "request_frame 3 ''Page.reload'' (JObj []) \<in> set (sent ?u)"
    and "packetCallbacks ?u 3 = Some 2"
    and "requests (run no_conversion ?u interleaved) ! 2 = Pending"
    and "requests (run no_conversion ?u (interleaved @ AFrame (Parsed (JObj answer_three)) # late_duplicate)) ! 2
           = response_outcome answer_three"
    by simp_all
  then show ?thesis
    using h2 h4 [symmetric] h5 [symmetric] h6 c h8 r n unfolding o
    by (simp add: list_all_iff)
qed

subsection \<open>C2: event dispatch\<close>

text \<open>
  C2, amended. For an inbound event frame with method name \<open>M\<close>, when no listener of \<open>M\<close>
  raises: the frame's \<open>params\<close> are delivered to every durable listener registered via
  \<open>listen(M)\<close>, once each and in registration order, and to no other durable listener; to
  every pending one-shot waiter created via \<open>wait(M)\<close>, whose promise is fulfilled with
  them; and to no waiter registered under another name. After the dispatch the waiters
  of \<open>M\<close> are deregistered and every other registration is still in place.
\<close>

theorem event_dispatch:
  assumes "pending_callback s fs = None"
    and "map_of fs ''method'' = Some (JStr M)"
    and "none_raises (listeners_of s M) (map_of fs ''params'')"
    and "plain_registry s"
  shows "calls (snd (onMessage conv s (Parsed (JObj fs))))
           = calls s @ map (\<lambda>l. (l, map_of fs ''params'')) (durable_labels (listeners_of s M)) \<and>
         (\<forall>w. (M, Once w) \<in> set (eventEmitter s) \<and> w < length (waits s) \<and> waits s ! w = Pending \<longrightarrow>
              waits (snd (onMessage conv s (Parsed (JObj fs)))) ! w = Fulfilled (map_of fs ''params'')) \<and>
         (\<forall>w. (M, Once w) \<notin> set (eventEmitter s) \<longrightarrow>
              waits (snd (onMessage conv s (Parsed (JObj fs)))) ! w = waits s ! w) \<and>
         eventEmitter (snd (onMessage conv s (Parsed (JObj fs))))
           = filter (\<lambda>e. \<not> (fst e = M \<and> is_waiter (snd e))) (eventEmitter s)"
proof -
  let ?p = "map_of fs ''params''"
  have om: "onMessage conv s (Parsed (JObj fs)) = emit s (M = ''error'') M ?p"
    using assms(1,2) by (simp add: onMessage_def)
  show ?thesis
  proof (cases "M = ''error'' \<and> listeners_of s ''error'' = []")
    case True
    then have "snd (emit s (M = ''error'') M ?p) = s" "listeners_of s M = []"
      by (simp_all add: emit_def)
    moreover have "\<And>w. (M, Once w) \<notin> set (eventEmitter s)"
      using \<open>listeners_of s M = []\<close> once_listener_of [of _ s M] by simp
    moreover have "filter (\<lambda>e. \<not> (fst e = M \<and> is_waiter (snd e))) (eventEmitter s) = eventEmitter s"
      using \<open>listeners_of s M = []\<close> by (auto simp: listeners_of_def filter_empty_conv filter_id_conv)
    ultimately show ?thesis by (simp add: om)
  next
    case False
    then have em: "emit s (M = ''error'') M ?p = dispatch s M (listeners_of s M) ?p"
      by (auto simp: emit_def)
    let ?s' = "snd (dispatch s M (listeners_of s M) ?p)"
    have c1: "calls ?s' = calls s @ map (\<lambda>l. (l, ?p)) (durable_labels (listeners_of s M))"
      using assms(3) by (simp add: dispatch_calls invoked_none_raises)
    have c2: "\<forall>w. (M, Once w) \<in> set (eventEmitter s) \<and> w < length (waits s) \<and> waits s ! w = Pending \<longrightarrow>
              waits ?s' ! w = Fulfilled ?p"
      using assms(3) by (simp add: dispatch_waits_delivered once_listener_of)
    have c3: "\<forall>w. (M, Once w) \<notin> set (eventEmitter s) \<longrightarrow> waits ?s' ! w = waits s ! w"
      by (simp add: dispatch_waits_other once_listener_of)
    have "eventEmitter ?s' =
            filter (\<lambda>e. \<not> (fst e = M \<and> snd e \<in> set (listeners_of s M) \<and> is_waiter (snd e))) (eventEmitter s)"
      using assms(3) by (rule dispatch_emitter)
    then have c4: "eventEmitter ?s' = filter (\<lambda>e. \<not> (fst e = M \<and> is_waiter (snd e))) (eventEmitter s)"
      by (simp only: waiter_filter)
    show ?thesis
      unfolding om em using c1 c2 c3 c4 by blast
  qed
qed

text \<open>
  C2 says that the params reach at most one pending one-shot waiter of \<open>M\<close>. With two
  \<open>wait('Page.loadEventFired')\<close> calls pending, one \<open>Page.loadEventFired\<close> frame fulfils both.
  It also says that they reach every durable listener of \<open>M\<close>. A \<open>Console.messageAdded\<close>
  frame without \<open>params\<close> makes the constructor's listener (label 0) raise, and the listener
  registered after it (label 1) is not called.
\<close>

theorem two_waiters_both_delivered:
  "waits two_waiters = [Pending, Pending] \<and>
   waits (snd (onMessage no_conversion two_waiters (Parsed (JObj load_event))))
     = [Fulfilled (Some (JObj [(''timestamp'', JNum 1)])), Fulfilled (Some (JObj [(''timestamp'', JNum 1)]))] \<and>
   durable_labels (listeners_of two_listeners ''Console.messageAdded'') = [0, 1] \<and>
   fst (onMessage no_conversion two_listeners (Parsed (JObj bare_console_event))) = Some (ListenerRaised 0) \<and>
   calls (snd (onMessage no_conversion two_listeners (Parsed (JObj bare_console_event)))) = [(0, None)]"
  by (simp add: two_waiters_def two_listeners_def bare_console_event_def wait_def listen_def
        example_page_fields Let_def load_event_def onMessage_def pending_callback_def emit_def
        listeners_of_def removeListener_def settle_def console_listener_raises_def)

lemma two_waiters_fields:
  "eventEmitter two_waiters =
     [(''Console.messageAdded'', Durable 0 console_listener_raises),
      (''Page.loadEventFired'', Once 0), (''Page.loadEventFired'', Once 1)]"
  "waits two_waiters = [Pending, Pending]"
  "calls two_waiters = []"
  "packetCallbacks two_waiters = packetCallbacks example_page"
  by (simp_all add: two_waiters_def wait_def example_page_fields Let_def)

text \<open>The same frame and page, as an instance of the amended statement.\<close>

theorem event_dispatch_witness:
  "pending_callback two_waiters load_event = None \<and>
   map_of load_event ''method'' = Some (JStr ''Page.loadEventFired'') \<and>
   none_raises (listeners_of two_waiters ''Page.loadEventFired'') (map_of load_event ''params'') \<and>
   plain_registry two_waiters \<and>
   calls (snd (onMessage no_conversion two_waiters (Parsed (JObj load_event)))) = [] \<and>
   waits (snd (onMessage no_conversion two_waiters (Parsed (JObj load_event)))) ! 1
     = Fulfilled (Some (JObj [(''timestamp'', JNum 1)])) \<and>
   eventEmitter (snd (onMessage no_conversion two_waiters (Parsed (JObj load_event))))
     = [(''Console.messageAdded'', Durable 0 console_listener_raises)]"
proof -
  have h1: "pending_callback two_waiters load_event = None"
    by (simp add: pending_callback_def load_event_def)
  have h2: "map_of load_event ''method'' = Some (JStr ''Page.loadEventFired'')"
    by (simp add: load_event_def)
  have h3: "none_raises (listeners_of two_waiters ''Page.loadEventFired'') (map_of load_event ''params'')"
    by (simp add: none_raises_def listeners_of_def two_waiters_fields)
  have h4: "plain_registry two_waiters"
    by (simp add: plain_registry_def two_waiters_fields)
  have p: "map_of load_event ''params'' = Some (JObj [(''timestamp'', JNum 1)])"
    by (simp add: load_event_def)
  show ?thesis
    using h1 h2 h3 h4 event_dispatch [OF h1 h2 h3 h4, of no_conversion]
    by (simp add: two_waiters_fields listeners_of_def p)
qed

subsection \<open>C3: what leaves the receive path\<close>

text \<open>
  C3 says that \<open>_onMessage\<close> never throws, whatever the frame. It does: on a frame that is
  not JSON \<open>JSON.parse\<close> raises a SyntaxError, and on the frame \<open>null\<close> (valid JSON, with
  neither an \<open>id\<close> nor a \<open>method\<close>) \<open>'id' in json\<close> raises a TypeError.
\<close>

theorem receive_path_throws:
  "onMessage no_conversion example_page ParseError = (Some SyntaxError, example_page) \<and>
   onMessage no_conversion example_page (Parsed JNull) = (Some TypeError, example_page)"
  by (simp add: onMessage_def)

text \<open>
  C3, amended. A frame that parses to an array, or to an object that carries neither the
  id of a pending request nor a \<open>method\<close>, is reported with \<open>console.warn\<close> and changes
  nothing else; \<open>_onMessage\<close> returns normally. It also returns normally on a response to
  a pending request whose \<open>error\<close> is not \<open>null\<close>, and on an event with a method name none
  of whose listeners raises (an \<open>error\<close> event needs a listener). A frame that is not
  parseable as JSON leaves \<open>_onMessage\<close> as a SyntaxError, and a frame that parses to
  \<open>null\<close>, a boolean, a number or a string as a TypeError, in both cases with the page
  unchanged.
\<close>

theorem receive_path_unrecognized:
  "onMessage conv s (Parsed (JArr xs)) = (None, s\<lparr>console := console s @ [ConsoleWarn (JArr xs)]\<rparr>) \<and>
   (pending_callback s fs = None \<and> map_of fs ''method'' = None \<longrightarrow>
      onMessage conv s (Parsed (JObj fs)) = (None, s\<lparr>console := console s @ [ConsoleWarn (JObj fs)]\<rparr>)) \<and>
   (pending_callback s fs = Some (i, h) \<and> map_of fs ''error'' \<noteq> Some JNull \<longrightarrow>
      fst (onMessage conv s (Parsed (JObj fs))) = None) \<and>
   (pending_callback s fs = None \<and> map_of fs ''method'' = Some (JStr M) \<and> plain_registry s \<and>
    none_raises (listeners_of s M) (map_of fs ''params'') \<and>
    (M = ''error'' \<longrightarrow> listeners_of s ''error'' \<noteq> []) \<longrightarrow>
      fst (onMessage conv s (Parsed (JObj fs))) = None) \<and>
   onMessage conv s ParseError = (Some SyntaxError, s) \<and>
   ((\<forall>fs. j \<noteq> JObj fs) \<and> (\<forall>xs. j \<noteq> JArr xs) \<longrightarrow> onMessage conv s (Parsed j) = (Some TypeError, s))"
proof -
  have unrecognized: "onMessage conv s (Parsed (JObj fs)) = (None, s\<lparr>console := console s @ [ConsoleWarn (JObj fs)]\<rparr>)"
    if "pending_callback s fs = None" "map_of fs ''method'' = None"
    using that by (simp add: onMessage_def)
  have response: "fst (onMessage conv s (Parsed (JObj fs))) = None"
    if "pending_callback s fs = Some (i, h)" "map_of fs ''error'' \<noteq> Some JNull"
    using that by (simp add: onMessage_def split: option.splits)
  have event: "fst (onMessage conv s (Parsed (JObj fs))) = None"
    if "pending_callback s fs = None" "map_of fs ''method'' = Some (JStr M)"
      "none_raises (listeners_of s M) (map_of fs ''params'')"
      "M = ''error'' \<longrightarrow> listeners_of s ''error'' \<noteq> []"
    using that by (auto simp: onMessage_def emit_def dispatch_returns)
  have primitive: "onMessage conv s (Parsed j) = (Some TypeError, s)"
    if "\<forall>fs. j \<noteq> JObj fs" "\<forall>xs. j \<noteq> JArr xs"
    using that by (cases j) (simp_all add: onMessage_def)
  have "onMessage conv s (Parsed (JArr xs)) = (None, s\<lparr>console := console s @ [ConsoleWarn (JArr xs)]\<rparr>)"
    and "onMessage conv s ParseError = (Some SyntaxError, s)"
    by (simp_all add: onMessage_def)
  then show ?thesis
    using unrecognized response event primitive by blast
qed

text \<open>
  The frames \<open>{foo: 1}\<close> and \<open>5\<close>, a response to request 1 and a console event, on the
  example page.
\<close>

theorem receive_path_unrecognized_witness:
  "pending_callback example_page unrecognized_frame = None \<and>
   map_of unrecognized_frame ''method'' = None \<and>
   onMessage no_conversion example_page (Parsed (JObj unrecognized_frame))
     = (None, example_page\<lparr>console := [ConsoleWarn (JObj unrecognized_frame)]\<rparr>) \<and>
   pending_callback example_page response_with_method = Some (1, 0) \<and>
   map_of response_with_method ''error'' \<noteq> Some JNull \<and>
   fst (onMessage no_conversion example_page (Parsed (JObj response_with_method))) = None \<and>
   pending_callback example_page event_with_stale_id = None \<and>
   map_of event_with_stale_id ''method'' = Some (JStr ''Console.messageAdded'') \<and>
   plain_registry example_page \<and>
   none_raises (listeners_of example_page ''Console.messageAdded'') (map_of event_with_stale_id ''params'') \<and>
   fst (onMessage no_conversion example_page (Parsed (JObj event_with_stale_id))) = None \<and>
   (\<forall>fs. JNum 5 \<noteq> JObj fs) \<and> (\<forall>xs. JNum 5 \<noteq> JArr xs) \<and>
   onMessage no_conversion example_page (Parsed (JNum 5)) = (Some TypeError, example_page)"
proof -
  have r1: "pending_callback example_page response_with_method = Some (1, 0)"
    and r2: "map_of response_with_method ''error'' \<noteq> Some JNull"
    by (simp_all add: pending_callback_def response_with_method_def example_page_fields)
  have e1: "pending_callback example_page event_with_stale_id = None"
    and e2: "map_of event_with_stale_id ''method'' = Some (JStr ''Console.messageAdded'')"
    and e3: "plain_registry example_page"
    and e4: "none_raises (listeners_of example_page ''Console.messageAdded'') (map_of event_with_stale_id ''params'')"
    by (simp_all add: pending_callback_def event_with_stale_id_def example_page_fields plain_registry_def
          none_raises_def listeners_of_def console_listener_raises_def console_params_def)
  have r: "fst (onMessage no_conversion example_page (Parsed (JObj response_with_method))) = None"
    using r1 r2 receive_path_unrecognized [where conv = no_conversion and s = example_page
        and fs = response_with_method and i = 1 and h = 0]
    by blast
  have e: "fst (onMessage no_conversion example_page (Parsed (JObj event_with_stale_id))) = None"
    using e1 e2 e3 e4 receive_path_unrecognized [where conv = no_conversion and s = example_page
        and fs = event_with_stale_id and M = "''Console.messageAdded''"]
    by simp
  have h1: "pending_callback example_page unrecognized_frame = None"
    by (simp add: pending_callback_def unrecognized_frame_def)
  have h2: "map_of unrecognized_frame ''method'' = None"
    by (simp add: unrecognized_frame_def)
  have h3: "(\<forall>fs. JNum 5 \<noteq> JObj fs) \<and> (\<forall>xs. JNum 5 \<noteq> JArr xs)"
    by simp
  have u: "onMessage no_conversion example_page (Parsed (JObj unrecognized_frame))
             = (None, example_page\<lparr>console := console example_page @ [ConsoleWarn (JObj unrecognized_frame)]\<rparr>) \<and>
           onMessage no_conversion example_page (Parsed (JNum 5)) = (Some TypeError, example_page)"
    using h1 h2 h3
      receive_path_unrecognized [where conv = no_conversion and s = example_page
        and fs = unrecognized_frame and j = "JNum 5"]
    by blast
  show ?thesis
    using h1 h2 h3 u r1 r2 r e1 e2 e3 e4 e by (simp add: example_page_fields)
qed

subsection \<open>C4: exec\<close>

lemma exec_then_exception:
  "js_prop r ''exceptionDetails'' = Some d \<Longrightarrow> truthy (Some d) \<Longrightarrow>
   exec_then (Fulfilled (Some r)) = Rejected (RJson d)"
  by (cases r) simp_all

lemma exec_then_plain:
  "r \<noteq> JNull \<Longrightarrow> js_prop r ''exceptionDetails'' = None \<Longrightarrow>
   exec_then (Fulfilled (Some r)) = Fulfilled (Some r)"
  by (cases r) simp_all

text \<open>
  C4, amended. \<open>exec(script, options)\<close> on an open socket sends a \<open>Runtime.evaluate\<close> request
  whose params have \<open>returnByValue = true\<close>. When the response's result carries an
  \<open>exceptionDetails\<close> descriptor (a truthy value, as every object is), the promise of
  \<open>exec\<close> is rejected with that descriptor as it is, and not fulfilled. When the result
  carries none, the promise is fulfilled with the whole result object of the response
  (the evaluated value is its member \<open>result.value\<close>, which \<open>execSync\<close> takes out).
\<close>

theorem exec_settles:
  assumes "socketOpen s" and "exec s script promise = (h, s1)"
  shows "last (sent s1) = request_frame (packetCounter s1) ''Runtime.evaluate'' (evaluate_params script promise) \<and>
         js_prop (evaluate_params script promise) ''returnByValue'' = Some (JBool True) \<and>
         (\<forall>r d. js_prop r ''exceptionDetails'' = Some d \<and> truthy (Some d) \<longrightarrow>
            exec_then (requests (snd (onMessage conv s1 (result_frame (packetCounter s1) r))) ! h)
              = Rejected (RJson d)) \<and>
         (\<forall>r. r \<noteq> JNull \<and> js_prop r ''exceptionDetails'' = None \<longrightarrow>
            exec_then (requests (snd (onMessage conv s1 (result_frame (packetCounter s1) r))) ! h)
              = Fulfilled (Some r))"
proof -
  let ?c = "js_incr (packetCounter s)"
  have h: "h = length (requests s)"
    and s1: "s1 = s\<lparr>requests := requests s @ [Pending], packetCounter := ?c,
                    packetCallbacks := (packetCallbacks s)(?c \<mapsto> length (requests s)),
                    sent := sent s @ [request_frame ?c ''Runtime.evaluate'' (evaluate_params script promise)]\<rparr>"
    using assms by (auto simp: exec_def send_open)
  have cb: "packetCallbacks s1 (packetCounter s1) = Some h"
    by (simp add: s1 h)
  have settled: "requests (snd (onMessage conv s1 (result_frame (packetCounter s1) r))) ! h = Fulfilled (Some r)" for r
    by (simp add: onMessage_result [OF cb]) (simp add: s1 h settle_fresh)
  have p1: "last (sent s1) = request_frame (packetCounter s1) ''Runtime.evaluate'' (evaluate_params script promise)"
    by (simp add: s1)
  have p2: "js_prop (evaluate_params script promise) ''returnByValue'' = Some (JBool True)"
    by (simp add: evaluate_params_def)
  have p3: "exec_then (requests (snd (onMessage conv s1 (result_frame (packetCounter s1) r))) ! h)
              = Rejected (RJson d)"
    if "js_prop r ''exceptionDetails'' = Some d" "truthy (Some d)" for r d
    unfolding settled using that by (rule exec_then_exception)
  have p4: "exec_then (requests (snd (onMessage conv s1 (result_frame (packetCounter s1) r))) ! h)
              = Fulfilled (Some r)"
    if "r \<noteq> JNull" "js_prop r ''exceptionDetails'' = None" for r
    unfolding settled using that by (rule exec_then_plain)
  show ?thesis
    using p1 p2 p3 p4 by blast
qed

lemma example_exec:
  "exec example_page ''1+2'' False =
     (Suc (Suc 0), example_page\<lparr>requests := [Pending, Pending, Pending], packetCounter := 3,
                       packetCallbacks := [1 \<mapsto> 0, 2 \<mapsto> 1, 3 \<mapsto> Suc (Suc 0)],
                       sent := sent example_page @ [request_frame 3 ''Runtime.evaluate'' (evaluate_params ''1+2'' False)]\<rparr>)"
  by (simp add: exec_def send_open example_page_fields js_incr_small)

text \<open>
  C4 says that \<open>exec\<close> resolves with the evaluated value. For \<open>1+2\<close> the response result is
  \<open>{result: {type: "number", value: 3}}\<close>: \<open>exec\<close> resolves with this object, and the
  evaluated value 3 is what \<open>.then(data => data.result.value)\<close> makes of it.
\<close>

theorem exec_resolves_with_response_result:
  "exec_then (requests (snd (onMessage no_conversion (snd (exec example_page ''1+2'' False))
                               (result_frame 3 number_result))) ! 2)
     = Fulfilled (Some number_result) \<and>
   value_then (Fulfilled (Some number_result)) = Fulfilled (Some (JNum 3)) \<and>
   number_result \<noteq> JNum 3"
  by (simp add: example_exec onMessage_def result_frame_def pending_callback_def settle_def number_result_def)

text \<open>The request \<open>exec('1+2')\<close> on the example page, answered with an exception and with a value.\<close>

theorem exec_settles_witness:
  "socketOpen example_page \<and>
   fst (exec example_page ''1+2'' False) = 2 \<and>
   packetCounter (snd (exec example_page ''1+2'' False)) = 3 \<and>
   last (sent (snd (exec example_page ''1+2'' False)))
     = request_frame 3 ''Runtime.evaluate'' (evaluate_params ''1+2'' False) \<and>
   js_prop exception_result ''exceptionDetails'' = Some (JObj [(''text'', JStr ''Uncaught'')]) \<and>
   exec_then (requests (snd (onMessage no_conversion (snd (exec example_page ''1+2'' False))
                               (result_frame 3 exception_result))) ! 2)
     = Rejected (RJson (JObj [(''text'', JStr ''Uncaught'')])) \<and>
   js_prop number_result ''exceptionDetails'' = None \<and>
   exec_then (requests (snd (onMessage no_conversion (snd (exec example_page ''1+2'' False))
                               (result_frame 3 number_result))) ! 2)
     = Fulfilled (Some number_result)"
proof -
  have h1: "socketOpen example_page"
    by (simp add: example_page_fields)
  have h2: "exec example_page ''1+2'' False = (2, snd (exec example_page ''1+2'' False))"
    by (simp add: example_exec)
  have c: "packetCounter (snd (exec example_page ''1+2'' False)) = 3"
    by (simp add: example_exec)
  have e: "js_prop exception_result ''exceptionDetails'' = Some (JObj [(''text'', JStr ''Uncaught'')])"
          "truthy (Some (JObj [(''text'', JStr ''Uncaught'')]))"
          "js_prop number_result ''exceptionDetails'' = None" "number_result \<noteq> JNull"
    by (simp_all add: exception_result_def number_result_def)
  from exec_settles [OF h1 h2, of no_conversion] e
  have "last (sent (snd (exec example_page ''1+2'' False)))
          = request_frame 3 ''Runtime.evaluate'' (evaluate_params ''1+2'' False)"
    and "exec_then (requests (snd (onMessage no_conversion (snd (exec example_page ''1+2'' False))
                               (result_frame 3 exception_result))) ! 2)
           = Rejected (RJson (JObj [(''text'', JStr ''Uncaught'')]))"
    and "exec_then (requests (snd (onMessage no_conversion (snd (exec example_page ''1+2'' False))
                               (result_frame 3 number_result))) ! 2)
           = Fulfilled (Some number_result)"
    unfolding c by blast+
  then show ?thesis
    using h1 c e by (simp add: example_exec)
qed

subsection \<open>C5: waitFor\<close>















subsection \<open>C6: navigate\<close>

text \<open>
  C6 says that \<open>navigate(url, waitForLoad)\<close> issues a \<open>Page.navigate\<close> call and, when asked,
  waits for \<open>Page.loadEventFired\<close>. The function reads \<open>this._page\<close>, which nothing assigns:
  on the example page \<open>navigate('http://example.com', true)\<close> is rejected with a TypeError
  and writes nothing to the socket (\<open>post\<close>, next to it, calls \<open>this.execSync\<close> and
  \<open>this.wait\<close>).
\<close>

theorem navigate_sends_nothing:
  "navigate example_page ''http://example.com'' True = (Rejected RTypeError, example_page) \<and>
   sent (snd (navigate example_page ''http://example.com'' True)) = sent example_page \<and>
   navigate example_page ''http://example.com'' False = (Rejected RTypeError, example_page)"
  by (simp add: navigate_def)

subsection \<open>C7: the cache of Browser.get\<close>

lemma new_page_id [simp]: "pageId (new_page d) = targetId d"
  by (simp add: new_page_def send_def listen_def Let_def)

lemma send_pageId [simp]: "pageId (snd (send s m ps)) = pageId s"
  by (simp add: send_def send_body_def Let_def)

lemma cache_ok_new: "cache_ok new_browser"
  by (simp add: cache_ok_def new_browser_def)

lemma get_cache_ok:
  assumes "cache_ok b"
  shows "cache_ok (snd (get b d))"
proof (cases "sockets b (targetId d)")
  case None
  then have "snd (get b d) = b\<lparr>heap := heap b @ [new_page d],
                                  sockets := (sockets b)(targetId d \<mapsto> length (heap b))\<rparr>"
    by (simp add: get_def Let_def)
  then show ?thesis
    using assms by (auto simp: cache_ok_def nth_append less_Suc_eq)
next
  case (Some page)
  then have "snd (get b d) = b\<lparr>sockets := (sockets b)(targetId d \<mapsto> page)\<rparr>"
    by (simp add: get_def)
  then show ?thesis
    using assms Some by (auto simp: cache_ok_def)
qed

lemma get_registers: "get b d = (page, b') \<Longrightarrow> sockets b' (targetId d) = Some page"
  by (auto simp: get_def Let_def split: option.splits)

lemma get_sockets_kept: "sockets b i = Some page \<Longrightarrow> sockets (snd (get b d)) i = Some page"
  by (auto simp: get_def Let_def split: option.splits)

lemma get_cached:
  "sockets b (targetId d) = Some page \<Longrightarrow> fst (get b d) = page \<and> heap (snd (get b d)) = heap b"
  by (simp add: get_def)

lemma get_fresh:
  "sockets b (targetId d) = None \<Longrightarrow>
   fst (get b d) = length (heap b) \<and> heap (snd (get b d)) = heap b @ [new_page d]"
  by (simp add: get_def Let_def)

lemma gets_cache_ok: "cache_ok b \<Longrightarrow> cache_ok (gets b ds)"
  unfolding gets_def by (induction ds arbitrary: b) (simp_all add: get_cache_ok)

lemma gets_sockets_kept: "sockets b i = Some page \<Longrightarrow> sockets (gets b ds) i = Some page"
  unfolding gets_def by (induction ds arbitrary: b) (simp_all add: get_sockets_kept)

text \<open>
  C7. \<open>get\<close> is called with \<open>d1\<close> and, after any number of further \<open>get\<close> calls, with \<open>d2\<close>.
  If the two descriptors have the same id, the second call returns the very \<open>Page\<close> the
  first returned and constructs nothing (the heap is as before the call). If their ids
  differ, the two calls return different \<open>Page\<close> objects.
\<close>

theorem get_idempotent_by_id:
  assumes "cache_ok b" and "get b d1 = (p1, b1)" and "get (gets b1 ds) d2 = (p2, b2)"
  shows "(targetId d1 = targetId d2 \<longrightarrow> p1 = p2 \<and> heap b2 = heap (gets b1 ds)) \<and>
         (targetId d1 \<noteq> targetId d2 \<longrightarrow> p1 \<noteq> p2)"
proof -
  let ?b = "gets b1 ds"
  have "cache_ok b1"
    using get_cache_ok [OF assms(1), of d1] assms(2) by simp
  then have ok: "cache_ok ?b"
    by (rule gets_cache_ok)
  have reg: "sockets ?b (targetId d1) = Some p1"
    using get_registers [OF assms(2)] by (rule gets_sockets_kept)
  then have p1: "p1 < length (heap ?b)" "pageId (heap ?b ! p1) = targetId d1"
    using ok by (simp_all add: cache_ok_def)
  have same: "p1 = p2 \<and> heap b2 = heap ?b" if "targetId d1 = targetId d2"
    using get_cached [of ?b d2 p1] reg that assms(3) by simp
  have "p1 \<noteq> p2" if ne: "targetId d1 \<noteq> targetId d2"
  proof (cases "sockets ?b (targetId d2)")
    case None
    then have "p2 = length (heap ?b)"
      using get_fresh [of ?b d2] assms(3) by simp
    then show ?thesis using p1(1) by simp
  next
    case (Some r)
    then have "p2 = r"
      using get_cached [of ?b d2 r] assms(3) by simp
    moreover have "pageId (heap ?b ! r) = targetId d2"
      using Some ok by (simp add: cache_ok_def)
    ultimately show ?thesis using p1(2) ne by auto
  qed
  with same show ?thesis by blast
qed

lemma get_new_browser:
  "get new_browser example_target =
     (0, \<lparr>sockets = [''A'' \<mapsto> 0], heap = [new_page example_target], defaultPage = None,
          initialized = False\<rparr>)"
  by (simp add: get_def new_browser_def example_target_def Let_def)

text \<open>On a new browser: \<open>get(A)\<close>, \<open>get(B)\<close>, then \<open>get(A)\<close> again, or \<open>get(C)\<close>.\<close>

theorem get_idempotent_by_id_witness:
  "cache_ok new_browser \<and>
   fst (get new_browser example_target) = 0 \<and>
   fst (get (gets (snd (get new_browser example_target)) [target_B]) example_target) = 0 \<and>
   heap (snd (get (gets (snd (get new_browser example_target)) [target_B]) example_target))
     = [new_page example_target, new_page target_B] \<and>
   targetId example_target \<noteq> targetId target_C \<and>
   fst (get new_browser example_target)
     \<noteq> fst (get (gets (snd (get new_browser example_target)) [target_B]) target_C) \<and>
   fst (get (gets (snd (get new_browser example_target)) [target_B]) target_C) = 2"
proof -
  let ?b1 = "snd (get new_browser example_target)"
  have h2: "get new_browser example_target = (0, ?b1)"
    by (simp add: get_new_browser)
  have g: "gets ?b1 [target_B] =
             \<lparr>sockets = [''A'' \<mapsto> 0, ''B'' \<mapsto> 1], heap = [new_page example_target, new_page target_B],
              defaultPage = None, initialized = False\<rparr>"
    by (simp add: gets_def get_new_browser) (simp add: get_def target_B_def Let_def)
  have h3: "get (gets ?b1 [target_B]) example_target
              = (fst (get (gets ?b1 [target_B]) example_target), snd (get (gets ?b1 [target_B]) example_target))"
    and h4: "get (gets ?b1 [target_B]) target_C
              = (fst (get (gets ?b1 [target_B]) target_C), snd (get (gets ?b1 [target_B]) target_C))"
    by simp_all
  have c: "fst (get (gets ?b1 [target_B]) target_C) = 2"
    unfolding g by (simp add: get_def target_C_def Let_def)
  have n: "targetId example_target \<noteq> targetId target_C"
    by (simp add: example_target_def target_C_def)
  have a: "fst (get new_browser example_target) = 0"
    by (simp add: get_new_browser)
  have hg: "heap (gets ?b1 [target_B]) = [new_page example_target, new_page target_B]"
    by (simp add: g)
  have r: "0 = fst (get (gets ?b1 [target_B]) example_target) \<and>
           heap (snd (get (gets ?b1 [target_B]) example_target)) = heap (gets ?b1 [target_B])"
    using get_idempotent_by_id [OF cache_ok_new h2 h3] by simp
  have r2: "fst (get new_browser example_target) \<noteq> fst (get (gets ?b1 [target_B]) target_C)"
    using get_idempotent_by_id [OF cache_ok_new h2 h4] n a by simp
  show ?thesis
    using a r r2 hg c n cache_ok_new by simp
qed

subsection \<open>C8: the default target\<close>

lemma heap_update_pageId:
  "pageId (xs[p := snd (send (xs ! p) m ps)] ! r) = pageId (xs ! r)"
  by (cases "p < length xs") (simp_all add: nth_list_update list_update_beyond)

lemma initialize_cache_ok:
  assumes "cache_ok b"
  shows "cache_ok (snd (initialize b pages))"
proof (cases "default_target pages")
  case None
  then show ?thesis using assms by (simp add: initialize_def)
next
  case (Some d)
  obtain page b1 where g: "get b d = (page, b1)"
    by (cases "get b d")
  have ok: "cache_ok b1"
    using get_cache_ok [OF assms, of d] g by simp
  have "snd (initialize b pages) =
          b1\<lparr>defaultPage := Some page,
             heap := (heap b1)[page := snd (send (heap b1 ! page) ''Target.setDiscoverTargets''
                                           (Some (JObj [(''discover'', JBool True)])))]\<rparr>"
    by (simp add: initialize_def Some g Let_def)
  then show ?thesis
    using ok by (simp add: cache_ok_def heap_update_pageId)
qed

text \<open>
  C8. If a listed descriptor has the url \<open>about:blank#default-page\<close>, the descriptor
  \<open>_initialize\<close> chooses is a listed one with that url (the first such, as \<open>find\<close> returns).
  If none has, it is the first descriptor of the list. The \<open>Page\<close> that \<open>get\<close> gives for
  the chosen descriptor becomes \<open>_defaultPage\<close>: it is the page cached under the chosen
  id, and \<open>_initialize\<close> raises nothing.
\<close>

theorem default_target_choice:
  assumes "cache_ok b"
  shows "((\<exists>d \<in> set pages. url d = ''about:blank#default-page'') \<longrightarrow>
            (\<exists>d. default_target pages = Some d \<and> d \<in> set pages \<and> url d = ''about:blank#default-page'')) \<and>
         ((\<forall>d \<in> set pages. url d \<noteq> ''about:blank#default-page'') \<and> pages = first # others \<longrightarrow>
            default_target pages = Some first) \<and>
         (default_target pages = Some chosen \<longrightarrow>
            fst (initialize b pages) = None \<and>
            (\<exists>page. defaultPage (snd (initialize b pages)) = Some page \<and>
                    sockets (snd (initialize b pages)) (targetId chosen) = Some page \<and>
                    page < length (heap (snd (initialize b pages))) \<and>
                    pageId (heap (snd (initialize b pages)) ! page) = targetId chosen))"
proof (intro conjI impI)
  assume "\<exists>d \<in> set pages. url d = ''about:blank#default-page''"
  then obtain d where "find (\<lambda>page. url page = ''about:blank#default-page'') pages = Some d"
    by (cases "find (\<lambda>page. url page = ''about:blank#default-page'') pages")
       (auto simp: find_None_iff)
  moreover from this have "d \<in> set pages \<and> url d = ''about:blank#default-page''"
    by (auto simp: find_Some_iff)
  ultimately show "\<exists>d. default_target pages = Some d \<and> d \<in> set pages \<and> url d = ''about:blank#default-page''"
    by (simp add: default_target_def)
next
  assume "(\<forall>d \<in> set pages. url d \<noteq> ''about:blank#default-page'') \<and> pages = first # others"
  then have "find (\<lambda>page. url page = ''about:blank#default-page'') pages = None" "pages = first # others"
    by (simp_all add: find_None_iff)
  then show "default_target pages = Some first"
    by (simp add: default_target_def)
next
  assume c: "default_target pages = Some chosen"
  obtain page b1 where g: "get b chosen = (page, b1)"
    by (cases "get b chosen")
  have i: "initialize b pages =
          (None, b1\<lparr>defaultPage := Some page,
             heap := (heap b1)[page := snd (send (heap b1 ! page) ''Target.setDiscoverTargets''
                                           (Some (JObj [(''discover'', JBool True)])))]\<rparr>)"
    by (simp add: initialize_def c g Let_def)
  show "fst (initialize b pages) = None"
    by (simp add: i)
  have ok: "cache_ok b1"
    using get_cache_ok [OF assms, of chosen] g by simp
  have reg: "sockets b1 (targetId chosen) = Some page"
    using g by (rule get_registers)
  then have "page < length (heap b1)" "pageId (heap b1 ! page) = targetId chosen"
    using ok by (simp_all add: cache_ok_def)
  then show "\<exists>page. defaultPage (snd (initialize b pages)) = Some page \<and>
                    sockets (snd (initialize b pages)) (targetId chosen) = Some page \<and>
                    page < length (heap (snd (initialize b pages))) \<and>
                    pageId (heap (snd (initialize b pages)) ! page) = targetId chosen"
    using reg by (simp add: i heap_update_pageId)
qed

text \<open>
  The discovery answers \<open>[A, B]\<close> and \<open>[B, A]\<close>, where \<open>A\<close> has the sentinel url, and
  \<open>[B, C]\<close>, where none has.
\<close>

theorem default_target_choice_witness:
  "cache_ok new_browser \<and>
   url example_target = ''about:blank#default-page'' \<and>
   default_target [example_target, target_B] = Some example_target \<and>
   default_target [target_B, example_target] = Some example_target \<and>
   url target_B \<noteq> ''about:blank#default-page'' \<and> url target_C \<noteq> ''about:blank#default-page'' \<and>
   default_target [target_B, target_C] = Some target_B \<and>
   fst (initialize new_browser [example_target, target_B]) = None \<and>
   defaultPage (snd (initialize new_browser [example_target, target_B])) = Some 0 \<and>
   pageId (heap (snd (initialize new_browser [example_target, target_B])) ! 0) = ''A''"
proof -
  have u: "url example_target = ''about:blank#default-page''"
    "url target_B \<noteq> ''about:blank#default-page''" "url target_C \<noteq> ''about:blank#default-page''"
    by (simp_all add: example_target_def target_B_def target_C_def)
  have d1: "default_target [example_target, target_B] = Some example_target"
    and d2: "default_target [target_B, example_target] = Some example_target"
    by (simp_all add: default_target_def u)
  have d3: "default_target [target_B, target_C] = Some target_B"
    using default_target_choice [OF cache_ok_new, of "[target_B, target_C]" target_B "[target_C]"] u
    by simp
  have s: "sockets (snd (initialize new_browser [example_target, target_B])) (targetId example_target) = Some 0"
    by (simp add: initialize_def d1 get_new_browser Let_def) (simp add: example_target_def)
  from default_target_choice [OF cache_ok_new, of "[example_target, target_B]" _ _ example_target] d1
  obtain page where "fst (initialize new_browser [example_target, target_B]) = None"
    and "defaultPage (snd (initialize new_browser [example_target, target_B])) = Some page"
    and "sockets (snd (initialize new_browser [example_target, target_B])) (targetId example_target) = Some page"
    and "pageId (heap (snd (initialize new_browser [example_target, target_B])) ! page) = targetId example_target"
    by blast
  then show ?thesis
    using s u d1 d2 d3 cache_ok_new by (simp add: example_target_def)
qed

subsection \<open>C9: a frame with an unknown id\<close>

text \<open>
  C9. An inbound frame carries an \<open>id\<close> (its value is \<open>v\<close>) and \<open>_packetCallbacks\<close> has no
  entry for it (\<open>pending_callback\<close> finds none). Handling the frame leaves \<open>_packetCallbacks\<close> unchanged and settles no
  promise of \<open>send\<close>: no pending request is resolved, rejected or removed. This holds
  whatever else the frame carries, also when its \<open>method\<close> sends it on to listeners.
\<close>

theorem unknown_id_keeps_pending:
  assumes "map_of fs ''id'' = Some v"
    and "pending_callback s fs = None"
  shows "packetCallbacks (snd (onMessage conv s (Parsed (JObj fs)))) = packetCallbacks s \<and>
         requests (snd (onMessage conv s (Parsed (JObj fs)))) = requests s"
  using assms(2) by (simp add: onMessage_def split: option.splits prod.splits)

text \<open>
  The frame \<open>{id: 7, error: {code: -1, message: "bad"}}\<close> on a page with the requests 1 and 2
  pending: both stay as they were.
\<close>

theorem unknown_id_keeps_pending_witness:
  "map_of unknown_id_frame ''id'' = Some (JNum 7) \<and>
   pending_callback example_page unknown_id_frame = None \<and>
   packetCallbacks (snd (onMessage no_conversion example_page (Parsed (JObj unknown_id_frame))))
     = [1 \<mapsto> 0, 2 \<mapsto> 1] \<and>
   requests (snd (onMessage no_conversion example_page (Parsed (JObj unknown_id_frame))))
     = [Pending, Pending]"
proof -
  have h1: "map_of unknown_id_frame ''id'' = Some (JNum 7)"
    by (simp add: unknown_id_frame_def)
  have h2: "pending_callback example_page unknown_id_frame = None"
    by (simp add: pending_callback_def unknown_id_frame_def example_page_fields)
  show ?thesis
    using h1 h2 unknown_id_keeps_pending [OF h1 h2, of no_conversion]
    by (simp add: example_page_fields)
qed

subsection \<open>C10: a frame is a response or an event, never both\<close>



end
